theory Spec2Isabelle
  imports Complex_Main
begin

section \<open>Data model (types.ts)\<close>

text \<open>
  JavaScript numbers are modelled as real numbers: arithmetic is exact, and the values
  NaN and the infinities do not exist. An optional field of an interface is an option.
  The meshing lines are given a second time with the rounding of double precision
  (section ``Mesh generation in double precision''), since the spacing of the nodes
  depends on it.
\<close>

datatype SupportType = PINNED | ROLLER | FIXED | HINGE

datatype LoadType = POINT | UDL | UVL | MOMENT

record Support =
  s_id :: string
  s_type :: SupportType
  s_position :: real

record Load =
  l_id :: string
  l_type :: LoadType
  l_magnitude :: real
  l_endMagnitude :: "real option"
  l_position :: real
  l_endPosition :: "real option"

record BeamConfig =
  cfg_length :: real
  cfg_elasticModulus :: real
  cfg_momentOfInertia :: real

record ILDPoint =
  ild_x :: real
  ild_value :: real

section \<open>Element formulation (solver.ts)\<close>

definition elementStiffness :: "real \<Rightarrow> real \<Rightarrow> real list list" where
  "elementStiffness EI L =
     (let L2 = L * L; L3 = L2 * L in
      [[12 * EI / L3, 6 * EI / L2, - 12 * EI / L3, 6 * EI / L2],
       [6 * EI / L2, 4 * EI / L, - 6 * EI / L2, 2 * EI / L],
       [- 12 * EI / L3, - 6 * EI / L2, 12 * EI / L3, - 6 * EI / L2],
       [6 * EI / L2, 2 * EI / L, - 6 * EI / L2, 4 * EI / L]])"

text \<open>The matrix of the specification: the scalar \<open>EI / Le^3\<close> times the integer pattern.\<close>

definition spec_stiffness :: "real \<Rightarrow> real \<Rightarrow> real list list" where
  "spec_stiffness EI Le =
     map (map (\<lambda>c. EI / Le ^ 3 * c))
       [[12, 6 * Le, - 12, 6 * Le],
        [6 * Le, 4 * Le\<^sup>2, - 6 * Le, 2 * Le\<^sup>2],
        [- 12, - 6 * Le, 12, - 6 * Le],
        [6 * Le, 2 * Le\<^sup>2, - 6 * Le, 4 * Le\<^sup>2]]"

definition symmetric4 :: "real list list \<Rightarrow> bool" where
  "symmetric4 m = (\<forall>i < 4. \<forall>j < 4. m ! i ! j = m ! j ! i)"

text \<open>
  \<open>ke[i][j] = v\<close> on an array of row arrays: only row \<open>i\<close> is replaced. The rows of every
  matrix built in solver.ts are distinct arrays (array literals, or copies made by
  \<open>[...row]\<close> and \<open>Array.from\<close>), so a list of lists carries the same values.
\<close>

definition set2 :: "real list list \<Rightarrow> nat \<Rightarrow> nat \<Rightarrow> real \<Rightarrow> real list list" where
  "set2 m i j v = m[i := (m ! i)[j := v]]"

text \<open>
  \<open>applyMomentRelease\<close> updates \<open>ke\<close> and \<open>fe\<close> in place. The loop over \<open>j\<close> reads
  \<open>ke[i][r]\<close> and \<open>ke[r][j]\<close> from the array as it is at that moment; only \<open>krr\<close> and \<open>fr\<close>
  are read once before the loops.
\<close>

definition release_cell :: "nat \<Rightarrow> real \<Rightarrow> nat \<Rightarrow> real list list \<Rightarrow> nat \<Rightarrow> real list list" where
  "release_cell r krr i ke j = set2 ke i j (ke ! i ! j - (ke ! i ! r * ke ! r ! j) / krr)"

definition release_row ::
  "nat \<Rightarrow> real \<Rightarrow> real \<Rightarrow> real list list \<times> real list \<Rightarrow> nat \<Rightarrow> real list list \<times> real list" where
  "release_row r krr fr st i =
     (let ke = fst st; fe = snd st;
          fe' = fe[i := fe ! i - (ke ! i ! r / krr) * fr];
          ke' = foldl (release_cell r krr i) ke [0..<4]
      in (ke', fe'))"

definition release_dof :: "real list list \<times> real list \<Rightarrow> nat \<Rightarrow> real list list \<times> real list" where
  "release_dof st r =
     (let ke = fst st; fe = snd st; krr = ke ! r ! r in
      if \<bar>krr\<bar> < 1 / 10 ^ 12 then st
      else let fr = fe ! r in foldl (release_row r krr fr) st [0..<4])"

definition applyMomentRelease ::
  "real list list \<Rightarrow> real list \<Rightarrow> bool \<Rightarrow> bool \<Rightarrow> real list list \<times> real list" where
  "applyMomentRelease ke fe releaseStart releaseEnd =
     (let releases = (if releaseStart then [1] else []) @ (if releaseEnd then [3] else [])
      in foldl release_dof (ke, fe) releases)"

text \<open>
  The static condensation of the specification at the released degree of freedom \<open>r\<close>:
  every value on the right is the one \<open>ke\<close> and \<open>fe\<close> hold when the step starts.
\<close>

definition condense :: "nat \<Rightarrow> real list list \<times> real list \<Rightarrow> real list list \<times> real list" where
  "condense r st =
     (let ke = fst st; fe = snd st; krr = ke ! r ! r in
      if \<bar>krr\<bar> < 1 / 10 ^ 12 then st
      else (map (\<lambda>i. map (\<lambda>j. ke ! i ! j - (ke ! i ! r * ke ! r ! j) / krr) [0..<4]) [0..<4],
            map (\<lambda>i. fe ! i - (ke ! i ! r / krr) * fe ! r) [0..<4]))"

definition spec_applyMomentRelease ::
  "real list list \<Rightarrow> real list \<Rightarrow> bool \<Rightarrow> bool \<Rightarrow> real list list \<times> real list" where
  "spec_applyMomentRelease ke fe releaseStart releaseEnd =
     (let st1 = (if releaseStart then condense 1 (ke, fe) else (ke, fe))
      in if releaseEnd then condense 3 st1 else st1)"

text \<open>
  \<open>findClosestNodeIndex\<close>: the state of the loop is \<open>(minDiff, idx)\<close>; \<open>None\<close> stands for
  the initial \<open>Infinity\<close>, below which every distance lies.
\<close>

definition closest_step :: "real list \<Rightarrow> real \<Rightarrow> real option \<times> nat \<Rightarrow> nat \<Rightarrow> real option \<times> nat" where
  "closest_step nodes x st i =
     (let minDiff = fst st; idx = snd st; d = \<bar>nodes ! i - x\<bar> in
      if (case minDiff of None \<Rightarrow> True | Some m \<Rightarrow> d < m) then (Some d, i)
      else (minDiff, idx))"

definition findClosestNodeIndex :: "real list \<Rightarrow> real \<Rightarrow> nat" where
  "findClosestNodeIndex nodes x =
     snd (foldl (closest_step nodes x) (None, 0) [0..<length nodes])"

section \<open>Dense solver (class LUSolver)\<close>

record LUSolver =
  lu_n :: nat
  lu_LU :: "real list list"
  lu_pivot :: "nat list"

text \<open>The search of the pivot row of column \<open>i\<close>: the pair \<open>(max, row)\<close> after the loop over \<open>k\<close>.\<close>

definition pivot_step :: "real list list \<Rightarrow> nat \<Rightarrow> real \<times> nat \<Rightarrow> nat \<Rightarrow> real \<times> nat" where
  "pivot_step M i st k =
     (let mx = fst st; row = snd st; val = \<bar>M ! k ! i\<bar>
      in if val > mx then (val, k) else (mx, row))"

definition pivot_search :: "real list list \<Rightarrow> nat \<Rightarrow> nat \<Rightarrow> real \<times> nat" where
  "pivot_search M n i = foldl (pivot_step M i) (0, i) [i..<n]"

text \<open>\<open>[a[i], a[row]] = [a[row], a[i]]\<close>: both reads happen before the two writes.\<close>

definition swap_entries :: "'a list \<Rightarrow> nat \<Rightarrow> nat \<Rightarrow> 'a list" where
  "swap_entries xs i row = (xs[i := xs ! row])[row := xs ! i]"

definition elim_cell :: "nat \<Rightarrow> nat \<Rightarrow> real list list \<Rightarrow> nat \<Rightarrow> real list list" where
  "elim_cell i j M k = set2 M j k (M ! j ! k - M ! j ! i * M ! i ! k)"

definition elim_row :: "nat \<Rightarrow> nat \<Rightarrow> real list list \<Rightarrow> nat \<Rightarrow> real list list" where
  "elim_row n i M j =
     (let M1 = set2 M j i (M ! j ! i / M ! i ! i)
      in foldl (elim_cell i j) M1 [i + 1..<n])"

text \<open>One pass of the outer loop of the constructor, for the column \<open>i\<close>.\<close>

definition lu_column :: "LUSolver \<Rightarrow> nat \<Rightarrow> LUSolver" where
  "lu_column s i =
     (let (mx, row) = pivot_search (lu_LU s) (lu_n s) i in
      if mx < 1 / 10 ^ 18 then s
      else let M = swap_entries (lu_LU s) i row;
               p = swap_entries (lu_pivot s) i row
           in s\<lparr>lu_LU := foldl (elim_row (lu_n s) i) M [i + 1..<lu_n s], lu_pivot := p\<rparr>)"

definition lu_init :: "real list list \<Rightarrow> LUSolver" where
  "lu_init matrix =
     \<lparr>lu_n = length matrix, lu_LU = map (\<lambda>row. row) matrix, lu_pivot = [0..<length matrix]\<rparr>"

definition LUSolver_new :: "real list list \<Rightarrow> LUSolver" where
  "LUSolver_new matrix = foldl lu_column (lu_init matrix) [0..<length matrix]"

definition forward_step :: "LUSolver \<Rightarrow> real list \<Rightarrow> real list \<Rightarrow> nat \<Rightarrow> real list" where
  "forward_step s b y i =
     (let sum = foldl (\<lambda>sum j. sum + lu_LU s ! i ! j * y ! j) 0 [0..<i]
      in y[i := b ! (lu_pivot s ! i) - sum])"

definition backward_step :: "LUSolver \<Rightarrow> real list \<Rightarrow> real list \<Rightarrow> nat \<Rightarrow> real list" where
  "backward_step s y x i =
     (let sum = foldl (\<lambda>sum j. sum + lu_LU s ! i ! j * x ! j) 0 [i + 1..<lu_n s]
      in if \<bar>lu_LU s ! i ! i\<bar> < 1 / 10 ^ 22 then x[i := 0]
         else x[i := (y ! i - sum) / lu_LU s ! i ! i])"

definition forward_subst :: "LUSolver \<Rightarrow> real list \<Rightarrow> real list" where
  "forward_subst s b = foldl (forward_step s b) (replicate (lu_n s) 0) [0..<lu_n s]"

definition solve :: "LUSolver \<Rightarrow> real list \<Rightarrow> real list" where
  "solve s b =
     (let y = forward_subst s b
      in foldl (backward_step s y) (replicate (lu_n s) 0) (rev [0..<lu_n s]))"

section \<open>Mesh generation (analyzeBeam, first part)\<close>

text \<open>
  A JavaScript \<open>Set\<close> keeps its elements in insertion order and ignores a value it already
  holds: a list without duplicates. \<open>has\<close> is membership, \<open>size\<close> the length.
\<close>

definition Set_add :: "'a list \<Rightarrow> 'a \<Rightarrow> 'a list" where
  "Set_add xs x = (if x \<in> set xs then xs else xs @ [x])"

definition add_load_bounds :: "real list \<Rightarrow> Load \<Rightarrow> real list" where
  "add_load_bounds c l =
     (let c' = Set_add c (l_position l) in
      if l_type l = UDL \<or> l_type l = UVL
      then (case l_endPosition l of None \<Rightarrow> c' | Some e \<Rightarrow> Set_add c' e)
      else c')"

definition criticalX :: "real \<Rightarrow> real \<Rightarrow> Support list \<Rightarrow> Load list \<Rightarrow> real list" where
  "criticalX L probeX supports loads =
     (let c0 = foldl Set_add [] [0, L, probeX];
          c1 = foldl (\<lambda>c s. Set_add c (s_position s)) c0 supports
      in foldl add_load_bounds c1 loads)"

text \<open>
  One pass of the meshing loop: \<open>start\<close>, then the interior points of the interval cut in
  \<open>numSub\<close> equal parts.
\<close>

definition subdivide :: "real \<Rightarrow> real \<Rightarrow> real \<Rightarrow> real list" where
  "subdivide minInterval start end =
     (let numSub = nat (max 1 \<lceil>(end - start) / minInterval\<rceil>)
      in start # map (\<lambda>j. start + (real j * (end - start)) / real numSub) [1..<numSub])"

fun mesh_loop :: "real \<Rightarrow> real list \<Rightarrow> real list" where
  "mesh_loop minInterval (start # end # rest) =
     subdivide minInterval start end @ mesh_loop minInterval (end # rest)"
| "mesh_loop minInterval _ = []"

definition generateNodes :: "real \<Rightarrow> real \<Rightarrow> Support list \<Rightarrow> Load list \<Rightarrow> real list" where
  "generateNodes L probeX supports loads =
     (let sortedX = sort (criticalX L probeX supports loads);
          minInterval = max (1 / 10) (L / 100)
      in mesh_loop minInterval sortedX @ [L])"

definition hingeNodes :: "real list \<Rightarrow> Support list \<Rightarrow> nat list" where
  "hingeNodes finalNodes supports =
     foldl (\<lambda>h s. if s_type s = HINGE
                   then Set_add h (findClosestNodeIndex finalNodes (s_position s)) else h)
       [] supports"

section \<open>Mesh generation in double precision\<close>

text \<open>
  A JavaScript number is a binary64 value and every arithmetic operation returns the
  double nearest to the exact result, ties going to the even significand. \<open>round64\<close> is
  this rounding on the reals: the exponent \<open>e\<close> is chosen so that the significand
  \<open>|x| / 2^e\<close> lies in \<open>[2^52, 2^53)\<close>, not below \<open>-1074\<close> (subnormal numbers) and not above
  \<open>971\<close>; results of magnitude \<open>2^1024\<close> or more, which are infinite in JavaScript, are
  outside this model.
\<close>

fun exp_down :: "nat \<Rightarrow> real \<Rightarrow> int \<Rightarrow> int" where
  "exp_down 0 x e = e"
| "exp_down (Suc k) x e = (if x < 2 ^ 52 then exp_down k (2 * x) (e - 1) else e)"

fun exp_up :: "nat \<Rightarrow> real \<Rightarrow> int \<Rightarrow> int" where
  "exp_up 0 x e = e"
| "exp_up (Suc k) x e = (if 2 ^ 53 \<le> x then exp_up k (x / 2) (e + 1) else e)"

definition exponent64 :: "real \<Rightarrow> int" where
  "exponent64 x = (if x < 2 ^ 52 then exp_down 1074 x 0 else exp_up 971 x 0)"

definition pow2 :: "int \<Rightarrow> real" where
  "pow2 e = (if 0 \<le> e then 2 ^ nat e else 1 / 2 ^ nat (- e))"

definition round_half_even :: "real \<Rightarrow> int" where
  "round_half_even y =
     (let f = \<lfloor>y\<rfloor>; r = y - of_int f in
      if r < 1 / 2 then f else if 1 / 2 < r then f + 1 else if even f then f else f + 1)"

definition round64 :: "real \<Rightarrow> real" where
  "round64 x =
     (if x = 0 then 0
      else let e = exponent64 \<bar>x\<bar>
           in sgn x * of_int (round_half_even (\<bar>x\<bar> / pow2 e)) * pow2 e)"

text \<open>
  Lines 110 to 118 of solver.ts with the rounding of each operation: the literal \<open>0.1\<close>,
  \<open>L / 100\<close>, \<open>end - start\<close> (computed on line 115 and again on line 116), the quotient by
  \<open>minInterval\<close>, the product by \<open>j\<close>, the quotient by \<open>numSub\<close> and the sum with \<open>start\<close>.
  \<open>Math.ceil\<close>, \<open>Math.max\<close> and the conversion of the integers \<open>j\<close> and \<open>numSub\<close> are exact.
  The set of critical values and its sorting involve no arithmetic (the comparator
  \<open>a - b\<close> has the sign of the exact difference), so \<open>criticalX\<close> and \<open>sort\<close> are used as
  they are. The arguments are doubles.
\<close>

definition subdivide64 :: "real \<Rightarrow> real \<Rightarrow> real \<Rightarrow> real list" where
  "subdivide64 minInterval start end =
     (let numSub = nat (max 1 \<lceil>round64 (round64 (end - start) / minInterval)\<rceil>)
      in start # map (\<lambda>j. round64 (start
                         + round64 (round64 (real j * round64 (end - start)) / real numSub)))
                   [1..<numSub])"



section \<open>Global assembly\<close>

definition element_idxs :: "nat \<Rightarrow> nat list" where
  "element_idxs i = [i * 2, i * 2 + 1, (i + 1) * 2, (i + 1) * 2 + 1]"

definition scatter_ke :: "nat list \<Rightarrow> real list list \<Rightarrow> real list list \<Rightarrow> real list list" where
  "scatter_ke idxs ke K =
     foldl (\<lambda>K r. foldl (\<lambda>K c. set2 K (idxs ! r) (idxs ! c) (K ! (idxs ! r) ! (idxs ! c) + ke ! r ! c))
                     K [0..<4])
       K [0..<4]"

definition assemble_element ::
  "real \<Rightarrow> real list \<Rightarrow> nat list \<Rightarrow> real list list \<Rightarrow> nat \<Rightarrow> real list list" where
  "assemble_element EI finalNodes hinges K i =
     (let x1 = finalNodes ! i; x2 = finalNodes ! (i + 1); Le = x2 - x1 in
      if Le \<le> 0 then K
      else let ke = elementStiffness EI Le;
               dummyFe = [0, 0, 0, 0];
               releaseStart = (i \<in> set hinges);
               releaseEnd = (i + 1 \<in> set hinges);
               ke' = (if releaseStart \<or> releaseEnd
                      then fst (applyMomentRelease ke dummyFe releaseStart releaseEnd) else ke)
           in scatter_ke (element_idxs i) ke' K)"

definition apply_support :: "real \<Rightarrow> real list \<Rightarrow> real list list \<Rightarrow> Support \<Rightarrow> real list list" where
  "apply_support penalty finalNodes K s =
     (let idx = findClosestNodeIndex finalNodes (s_position s) in
      if s_type s = FIXED
      then let K1 = set2 K (idx * 2) (idx * 2) (K ! (idx * 2) ! (idx * 2) + penalty)
           in set2 K1 (idx * 2 + 1) (idx * 2 + 1) (K1 ! (idx * 2 + 1) ! (idx * 2 + 1) + penalty)
      else if s_type s = PINNED \<or> s_type s = ROLLER
      then set2 K (idx * 2) (idx * 2) (K ! (idx * 2) ! (idx * 2) + penalty)
      else K)"

definition globalStiffness ::
  "real \<Rightarrow> real list \<Rightarrow> nat list \<Rightarrow> Support list \<Rightarrow> real list list" where
  "globalStiffness EI finalNodes hinges supports =
     (let numNodes = length finalNodes; totalDof = numNodes * 2;
          K0 = replicate totalDof (replicate totalDof 0);
          K1 = foldl (assemble_element EI finalNodes hinges) K0 [0..<numNodes - 1];
          penalty = 10 ^ 18 * EI
      in foldl (apply_support penalty finalNodes) K1 supports)"

section \<open>Load vector\<close>

text \<open>
  The contribution of one load to the element force vector, as \<open>buildLoadVector\<close> writes
  it. With \<open>endPosition\<close> undefined, \<open>Math.min\<close> is NaN and the comparison is false: nothing
  is added.
\<close>

definition load_fe_build :: "real \<Rightarrow> real \<Rightarrow> real list \<Rightarrow> Load \<Rightarrow> real list" where
  "load_fe_build x1 x2 fe load =
     (if l_type load = UDL \<or> l_type load = UVL then
        (case l_endPosition load of
           None \<Rightarrow> fe
         | Some endPosition \<Rightarrow>
             let xA = max x1 (l_position load); xB = min x2 endPosition in
             if xA < xB - 1 / 10 ^ 9 then
               let wStart = l_magnitude load;
                   wEnd = (if l_type load = UVL
                           then (case l_endMagnitude load of None \<Rightarrow> wStart | Some e \<Rightarrow> e)
                           else wStart);
                   t1 = (xA - l_position load) / (endPosition - l_position load);
                   t2 = (xB - l_position load) / (endPosition - l_position load);
                   q1 = (wStart + (wEnd - wStart) * t1) * 1000;
                   q2 = (wStart + (wEnd - wStart) * t2) * 1000;
                   loadLen = xB - xA;
                   totalW = (q1 + q2) * loadLen / 2;
                   fe0 = fe[0 := fe ! 0 - totalW / 2];
                   fe1 = fe0[2 := fe0 ! 2 - totalW / 2];
                   mFE = (q1 + q2) * loadLen * loadLen / 24;
                   fe2 = fe1[1 := fe1 ! 1 - mFE]
               in fe2[3 := fe2 ! 3 + mFE]
             else fe)
      else fe)"

definition load_vector_element ::
  "real \<Rightarrow> real list \<Rightarrow> nat list \<Rightarrow> Load list \<Rightarrow> real list \<Rightarrow> nat \<Rightarrow> real list" where
  "load_vector_element EI finalNodes hinges currentLoads F i =
     (let x1 = finalNodes ! i; x2 = finalNodes ! (i + 1); Le = x2 - x1 in
      if Le \<le> 0 then F
      else let fe = foldl (load_fe_build x1 x2) [0, 0, 0, 0] currentLoads;
               releaseStart = (i \<in> set hinges);
               releaseEnd = (i + 1 \<in> set hinges);
               fe' = (if releaseStart \<or> releaseEnd
                      then snd (applyMomentRelease (elementStiffness EI Le) fe releaseStart releaseEnd)
                      else fe);
               idxs = element_idxs i
           in foldl (\<lambda>F r. F[idxs ! r := F ! (idxs ! r) + fe' ! r]) F [0..<4])"

definition load_nodal :: "real list \<Rightarrow> real list \<Rightarrow> Load \<Rightarrow> real list" where
  "load_nodal finalNodes F load =
     (if l_type load = POINT
      then let idx = findClosestNodeIndex finalNodes (l_position load)
           in F[idx * 2 := F ! (idx * 2) - l_magnitude load * 1000]
      else if l_type load = MOMENT
      then let idx = findClosestNodeIndex finalNodes (l_position load)
           in F[idx * 2 + 1 := F ! (idx * 2 + 1) + l_magnitude load * 1000]
      else F)"

definition buildLoadVector :: "real \<Rightarrow> real list \<Rightarrow> nat list \<Rightarrow> Load list \<Rightarrow> real list" where
  "buildLoadVector EI finalNodes hinges currentLoads =
     (let numNodes = length finalNodes; totalDof = numNodes * 2;
          F0 = replicate totalDof 0;
          hasDistributed = list_ex (\<lambda>l. l_type l = UDL \<or> l_type l = UVL) currentLoads;
          F1 = (if hasDistributed
                then foldl (load_vector_element EI finalNodes hinges currentLoads) F0 [0..<numNodes - 1]
                else F0)
      in foldl (load_nodal finalNodes) F1 currentLoads)"

section \<open>Internal force recovery\<close>

datatype Side = SLeft | SRight

record Internal =
  int_shear :: real
  int_moment :: real

definition load_fe_internal :: "real \<Rightarrow> real \<Rightarrow> real list \<Rightarrow> Load \<Rightarrow> real list" where
  "load_fe_internal x1 x2 fe load =
     (if l_type load = UDL \<or> l_type load = UVL then
        (case l_endPosition load of
           None \<Rightarrow> fe
         | Some endPosition \<Rightarrow>
             let xA = max x1 (l_position load); xB = min x2 endPosition in
             if xA < xB - 1 / 10 ^ 9 then
               let wStart = l_magnitude load;
                   wEnd = (if l_type load = UVL
                           then (case l_endMagnitude load of None \<Rightarrow> wStart | Some e \<Rightarrow> e)
                           else wStart);
                   t1 = (xA - l_position load) / (endPosition - l_position load);
                   t2 = (xB - l_position load) / (endPosition - l_position load);
                   q1 = (wStart + (wEnd - wStart) * t1) * 1000;
                   q2 = (wStart + (wEnd - wStart) * t2) * 1000;
                   loadLen = xB - xA;
                   fe0 = fe[0 := fe ! 0 - (q1 + q2) * loadLen / 4];
                   fe1 = fe0[2 := fe0 ! 2 - (q1 + q2) * loadLen / 4];
                   mFE = (q1 + q2) * loadLen * loadLen / 24;
                   fe2 = fe1[1 := fe1 ! 1 - mFE]
               in fe2[3 := fe2 ! 3 + mFE]
             else fe)
      else fe)"

text \<open>
  \<open>elemIdx\<close> is an integer in the source (\<open>nodeIdx - 1\<close> may be \<open>-1\<close>) and is clamped to
  \<open>[0, numNodes - 2]\<close>; the node array of a call that passed the guard has two nodes at
  least, so the clamped value is a valid index.
\<close>

definition getInternalAt ::
  "real \<Rightarrow> real list \<Rightarrow> nat list \<Rightarrow> real list \<Rightarrow> real \<Rightarrow> Load list \<Rightarrow> Side \<Rightarrow> Internal" where
  "getInternalAt EI finalNodes hinges dispVector xTarget currentLoads side =
     (let numNodes = length finalNodes;
          nodeIdx = findClosestNodeIndex finalNodes xTarget;
          e0 = (if side = SLeft then int nodeIdx - 1 else int nodeIdx);
          e1 = (if e0 < 0 then 0 else e0);
          e2 = (if e1 \<ge> int numNodes - 1 then int numNodes - 2 else e1);
          elemIdx = nat e2;
          x1 = finalNodes ! elemIdx; x2 = finalNodes ! (elemIdx + 1); Le = x2 - x1 in
      if Le \<le> 0 then \<lparr>int_shear = 0, int_moment = 0\<rparr>
      else let ke0 = elementStiffness EI Le;
               fe0 = foldl (load_fe_internal x1 x2) [0, 0, 0, 0] currentLoads;
               releaseStart = (elemIdx \<in> set hinges);
               releaseEnd = (elemIdx + 1 \<in> set hinges);
               kf = (if releaseStart \<or> releaseEnd
                     then applyMomentRelease ke0 fe0 releaseStart releaseEnd else (ke0, fe0));
               ke = fst kf; fe = snd kf;
               u_e = [dispVector ! (elemIdx * 2), dispVector ! (elemIdx * 2 + 1),
                      dispVector ! ((elemIdx + 1) * 2), dispVector ! ((elemIdx + 1) * 2 + 1)];
               f = foldl (\<lambda>f r. foldl (\<lambda>f c. f[r := f ! r + ke ! r ! c * u_e ! c]) f [0..<4])
                     fe [0..<4]
           in if nodeIdx = elemIdx
              then \<lparr>int_shear = f ! 0 / 1000, int_moment = - (f ! 1) / 1000\<rparr>
              else \<lparr>int_shear = - (f ! 2) / 1000, int_moment = f ! 3 / 1000\<rparr>)"

section \<open>Results and the entry point\<close>

record Reaction =
  r_position :: real
  r_force :: real
  r_moment :: real
  r_label :: string
  r_id :: string

record AnalysisResults =
  nodes :: "real list"
  shearForce :: "real list"
  bendingMoment :: "real list"
  deflection :: "real list"
  reactions :: "Reaction list"
  maxShear :: real
  minShear :: real
  maxMoment :: real
  minMoment :: real
  maxDeflection :: real
  minDeflection :: real
  determinacy :: int
  isStable :: bool
  ildReactions :: "string \<rightharpoonup> ILDPoint list"
  ildShearAtProbe :: "ILDPoint list"
  ildMomentAtProbe :: "ILDPoint list"

datatype error = InvalidBeamGeometry

text \<open>The decimal digits of a number, for the template string \<open>R${idx + 1}\<close>.\<close>

definition digit_char :: "nat \<Rightarrow> char" where
  "digit_char d = ''0123456789'' ! d"

function string_of_nat :: "nat \<Rightarrow> string" where
  "string_of_nat n =
     (if n < 10 then [digit_char n] else string_of_nat (n div 10) @ [digit_char (n mod 10)])"
  by pat_completeness auto
termination
  by (relation "measure (\<lambda>n. n)") auto

text \<open>
  \<open>Math.max(...xs)\<close> and \<open>Math.min(...xs)\<close>. On an empty array JavaScript returns an
  infinity, which is not a real number; every array they are applied to has one entry
  per node, and the node array always ends with \<open>L\<close>.
\<close>

fun Math_max :: "real list \<Rightarrow> real" where
  "Math_max [] = 0"
| "Math_max (x # xs) = foldl max x xs"

fun Math_min :: "real list \<Rightarrow> real" where
  "Math_min [] = 0"
| "Math_min (x # xs) = foldl min x xs"

text \<open>The loop that fills \<open>shear\<close> and \<open>moment\<close>: the state is the pair of arrays.\<close>

definition recover_node ::
  "real \<Rightarrow> real list \<Rightarrow> nat list \<Rightarrow> real list \<Rightarrow> Load list \<Rightarrow> real list \<times> real list \<Rightarrow> nat
   \<Rightarrow> real list \<times> real list" where
  "recover_node EI finalNodes hinges U loads st i =
     (let shear = fst st; moment = snd st;
          internal = getInternalAt EI finalNodes hinges U (finalNodes ! i) loads SLeft
      in (shear[i := int_shear internal],
          moment[i := (if \<bar>int_moment internal\<bar> < 1 / 10 ^ 7 then 0 else int_moment internal)]))"

definition support_reaction :: "real \<Rightarrow> real list \<Rightarrow> real list \<Rightarrow> nat \<times> Support \<Rightarrow> Reaction" where
  "support_reaction penalty finalNodes U p =
     (let idx = fst p; s = snd p;
          nIdx = findClosestNodeIndex finalNodes (s_position s);
          f = (penalty * U ! (nIdx * 2)) / (- 1000);
          m = (if s_type s = FIXED then (penalty * U ! (nIdx * 2 + 1)) / 1000 else 0)
      in \<lparr>r_position = s_position s, r_force = f, r_moment = m,
          r_label = ''R'' @ string_of_nat (idx + 1), r_id = s_id s\<rparr>)"

definition reactionCount :: "Support list \<Rightarrow> int" where
  "reactionCount supports =
     foldl (\<lambda>acc s. acc + (if s_type s = FIXED then 2 else (if s_type s = HINGE then 0 else 1)))
       0 supports"

text \<open>
  The influence lines. The state of the sweep is the triple \<open>(ildReactions,
  ildShearAtProbe, ildMomentAtProbe)\<close>. \<open>ildReactions[s.id].push\<close> finds the array that was
  stored under the key before the sweep.
\<close>

definition unitLoad :: "real \<Rightarrow> Load list" where
  "unitLoad x = [\<lparr>l_id = ''unit'', l_type = POINT, l_magnitude = 1, l_endMagnitude = None,
                  l_position = x, l_endPosition = None\<rparr>]"

definition ild_push_reaction ::
  "real \<Rightarrow> real list \<Rightarrow> real \<Rightarrow> real list \<Rightarrow> (string \<rightharpoonup> ILDPoint list) \<Rightarrow> Support
   \<Rightarrow> (string \<rightharpoonup> ILDPoint list)" where
  "ild_push_reaction penalty finalNodes x U_ild m s =
     (if s_type s = HINGE then m
      else let nIdx = findClosestNodeIndex finalNodes (s_position s);
               pt = \<lparr>ild_x = x, ild_value = (penalty * U_ild ! (nIdx * 2)) / (- 1000)\<rparr>
           in (case m (s_id s) of None \<Rightarrow> m | Some ps \<Rightarrow> m(s_id s \<mapsto> ps @ [pt])))"

definition ild_side :: "real \<Rightarrow> real \<Rightarrow> Side" where
  "ild_side x probeX = (if x \<le> probeX then SRight else SLeft)"

definition ild_station ::
  "real \<Rightarrow> real \<Rightarrow> real list \<Rightarrow> nat list \<Rightarrow> LUSolver \<Rightarrow> Support list \<Rightarrow> real
   \<Rightarrow> (string \<rightharpoonup> ILDPoint list) \<times> ILDPoint list \<times> ILDPoint list \<Rightarrow> nat
   \<Rightarrow> (string \<rightharpoonup> ILDPoint list) \<times> ILDPoint list \<times> ILDPoint list" where
  "ild_station L EI finalNodes hinges solver supports probeX st i =
     (let steps = 30;
          x = (real i / steps) * L;
          F_ild = buildLoadVector EI finalNodes hinges (unitLoad x);
          U_ild = solve solver F_ild;
          penalty = 10 ^ 18 * EI;
          rs = foldl (ild_push_reaction penalty finalNodes x U_ild) (fst st) supports;
          side = ild_side x probeX;
          int_ild = getInternalAt EI finalNodes hinges U_ild probeX (unitLoad x) side
      in (rs,
          fst (snd st) @ [\<lparr>ild_x = x, ild_value = int_shear int_ild\<rparr>],
          snd (snd st) @ [\<lparr>ild_x = x, ild_value = int_moment int_ild\<rparr>]))"

definition analysis :: "real \<Rightarrow> real \<Rightarrow> Support list \<Rightarrow> Load list \<Rightarrow> real \<Rightarrow> AnalysisResults" where
  "analysis L EI supports loads probeX =
     (let finalNodes = generateNodes L probeX supports loads;
          numNodes = length finalNodes;
          hinges = hingeNodes finalNodes supports;
          K = globalStiffness EI finalNodes hinges supports;
          penalty = 10 ^ 18 * EI;
          solver = LUSolver_new K;
          F_main = buildLoadVector EI finalNodes hinges loads;
          U = solve solver F_main;
          sm = foldl (recover_node EI finalNodes hinges U loads)
                 (replicate numNodes 0, replicate numNodes 0) [0..<numNodes];
          shear = fst sm; moment = snd sm;
          deflection = map (\<lambda>v. v * 1000) (map snd (filter (\<lambda>(i, v). i mod 2 = 0) (enumerate 0 U)));
          reactions = map (support_reaction penalty finalNodes U)
                        (enumerate 0 (filter (\<lambda>s. s_type s \<noteq> HINGE) supports));
          ild0 = foldl (\<lambda>m s. if s_type s \<noteq> HINGE then m(s_id s \<mapsto> []) else m) Map.empty supports;
          reactionCount = reactionCount supports;
          hingesCount = int (length hinges);
          isStable = (reactionCount \<ge> 3);
          ild = (if isStable
                 then foldl (ild_station L EI finalNodes hinges solver supports probeX)
                        (ild0, [], []) [0..<31]
                 else (ild0, [], []))
      in \<lparr>nodes = finalNodes, shearForce = shear, bendingMoment = moment,
          deflection = deflection, reactions = reactions,
          maxShear = Math_max shear, minShear = Math_min shear,
          maxMoment = Math_max moment, minMoment = Math_min moment,
          maxDeflection = Math_max deflection, minDeflection = Math_min deflection,
          determinacy = reactionCount - 3 - hingesCount, isStable = isStable,
          ildReactions = fst ild, ildShearAtProbe = fst (snd ild),
          ildMomentAtProbe = snd (snd ild)\<rparr>)"

text \<open>
  \<open>analyzeBeam\<close>: the guard throws before anything else is computed; \<open>analysis\<close> is the
  rest of the function body.
\<close>

definition analyzeBeam ::
  "BeamConfig \<Rightarrow> Support list \<Rightarrow> Load list \<Rightarrow> real \<Rightarrow> error + AnalysisResults" where
  "analyzeBeam config supports loads probeX =
     (let L = cfg_length config;
          E = cfg_elasticModulus config * 10 ^ 6;
          I = cfg_momentOfInertia config * (1 / 10 ^ 12);
          EI = E * I in
      if L \<le> 0 \<or> EI \<le> 0 then Inl InvalidBeamGeometry
      else Inr (analysis L EI supports loads probeX))"

section \<open>Notions of the specification\<close>

text \<open>
  The positions the mesh has to contain: \<open>0\<close>, \<open>L\<close>, the probe, every support position and
  every load boundary (the position of a load, and the end position of a distributed
  load).
\<close>

definition load_bounds :: "Load \<Rightarrow> real set" where
  "load_bounds l =
     insert (l_position l)
       (if l_type l = UDL \<or> l_type l = UVL then set_option (l_endPosition l) else {})"

definition critical_positions :: "real \<Rightarrow> real \<Rightarrow> Support list \<Rightarrow> Load list \<Rightarrow> real set" where
  "critical_positions L probeX supports loads =
     {0, L, probeX} \<union> s_position ` set supports \<union> (\<Union>l \<in> set loads. load_bounds l)"

text \<open>The entries of an array at the even indices, in order.\<close>

fun evens :: "'a list \<Rightarrow> 'a list" where
  "evens [] = []"
| "evens [x] = [x]"
| "evens (x # y # r) = x # evens r"

section \<open>Values of the locals of analyzeBeam, named for the statements\<close>

definition EI_of :: "BeamConfig \<Rightarrow> real" where
  "EI_of config =
     cfg_elasticModulus config * 10 ^ 6 * (cfg_momentOfInertia config * (1 / 10 ^ 12))"

text \<open>The factorization \<open>solver\<close>, the vector \<open>U\<close> and, for a unit load at \<open>x\<close>, \<open>U_ild\<close>.\<close>

definition beamSolver :: "real \<Rightarrow> real \<Rightarrow> Support list \<Rightarrow> Load list \<Rightarrow> real \<Rightarrow> LUSolver" where
  "beamSolver L EI supports loads probeX =
     (let finalNodes = generateNodes L probeX supports loads;
          hinges = hingeNodes finalNodes supports
      in LUSolver_new (globalStiffness EI finalNodes hinges supports))"

definition mainDisplacements :: "real \<Rightarrow> real \<Rightarrow> Support list \<Rightarrow> Load list \<Rightarrow> real \<Rightarrow> real list" where
  "mainDisplacements L EI supports loads probeX =
     (let finalNodes = generateNodes L probeX supports loads;
          hinges = hingeNodes finalNodes supports
      in solve (beamSolver L EI supports loads probeX)
           (buildLoadVector EI finalNodes hinges loads))"


text \<open>The station \<open>i\<close> of the influence lines as the specification writes it.\<close>

definition station :: "real \<Rightarrow> nat \<Rightarrow> real" where
  "station L i = real i * L / 30"


text \<open>The reactions a support type stands for, in the words of the specification.\<close>

fun reaction_weight :: "SupportType \<Rightarrow> int" where
  "reaction_weight FIXED = 2"
| "reaction_weight PINNED = 1"
| "reaction_weight ROLLER = 1"
| "reaction_weight HINGE = 0"

text \<open>
  A complete result: two nodes at least, one entry per node in each array, one reaction
  per support that is not a hinge and an influence series under the id of each of them.
\<close>

definition complete_results :: "Support list \<Rightarrow> AnalysisResults \<Rightarrow> bool" where
  "complete_results supports r =
     (2 \<le> length (nodes r)
      \<and> length (shearForce r) = length (nodes r)
      \<and> length (bendingMoment r) = length (nodes r)
      \<and> length (deflection r) = length (nodes r)
      \<and> length (reactions r) = length (filter (\<lambda>s. s_type s \<noteq> HINGE) supports)
      \<and> list_all (\<lambda>s. s_type s = HINGE \<or> ildReactions r (s_id s) \<noteq> None) supports
      \<and> length (ildShearAtProbe r) = length (ildMomentAtProbe r))"

section \<open>Notions for the dense solver\<close>

text \<open>A square matrix of order \<open>n\<close>: \<open>n\<close> rows of \<open>n\<close> entries.\<close>

definition square :: "nat \<Rightarrow> real list list \<Rightarrow> bool" where
  "square n M = (length M = n \<and> list_all (\<lambda>row. length row = n) M)"

text \<open>The state of the constructor before the pass \<open>i\<close> of its outer loop.\<close>

definition lu_state :: "real list list \<Rightarrow> nat \<Rightarrow> LUSolver" where
  "lu_state K i = foldl lu_column (lu_init K) [0..<i]"

text \<open>
  No guard fires: every pass of the factorization finds a pivot of magnitude \<open>1e-18\<close> at
  least, and every diagonal entry met by \<open>solve\<close> has magnitude \<open>1e-22\<close> at least.
\<close>

definition pivots_ok :: "real list list \<Rightarrow> bool" where
  "pivots_ok K =
     list_all (\<lambda>i. \<not> fst (pivot_search (lu_LU (lu_state K i)) (length K) i) < 1 / 10 ^ 18)
       [0..<length K]"

definition diagonal_ok :: "LUSolver \<Rightarrow> bool" where
  "diagonal_ok s = list_all (\<lambda>i. \<not> \<bar>lu_LU s ! i ! i\<bar> < 1 / 10 ^ 22) [0..<lu_n s]"

text \<open>The product of a matrix and a vector.\<close>

definition mat_vec :: "real list list \<Rightarrow> real list \<Rightarrow> real list" where
  "mat_vec K x = map (\<lambda>row. sum_list (map (\<lambda>c. row ! c * x ! c) [0..<length x])) K"

text \<open>
  The relation between the input matrix \<open>A\<close> and the state \<open>(M, p)\<close> after \<open>t\<close> columns:
  the row \<open>p[q]\<close> of \<open>A\<close> is the product of the multipliers stored in the row \<open>q\<close> of \<open>M\<close>
  with the rows of \<open>M\<close> already final, plus what is left in the row \<open>q\<close>.
\<close>

definition lu_inv :: "real list list \<Rightarrow> nat \<Rightarrow> nat \<Rightarrow> real list list \<Rightarrow> nat list \<Rightarrow> bool" where
  "lu_inv A n t M p =
     (\<forall>q < n. \<forall>c < n.
        A ! (p ! q) ! c
          = (\<Sum>k < min t q. if k \<le> c then M ! q ! k * M ! k ! c else 0)
            + (if min t q \<le> c then M ! q ! c else 0))"

section \<open>Inputs of the examples\<close>

text \<open>A beam of 0.4 m with the section of \<open>INITIAL_CONFIG\<close> (App.tsx), and its supports.\<close>

definition short_config :: BeamConfig where
  "short_config = \<lparr>cfg_length = 2 / 5, cfg_elasticModulus = 200000,
                    cfg_momentOfInertia = 500000000\<rparr>"

definition initial_config :: BeamConfig where
  "initial_config = \<lparr>cfg_length = 10, cfg_elasticModulus = 200000,
                      cfg_momentOfInertia = 500000000\<rparr>"

definition support_at :: "string \<Rightarrow> SupportType \<Rightarrow> real \<Rightarrow> Support" where
  "support_at i t x = \<lparr>s_id = i, s_type = t, s_position = x\<rparr>"

definition udl_load :: "real \<Rightarrow> real \<Rightarrow> real \<Rightarrow> Load" where
  "udl_load w a b = \<lparr>l_id = ''l1'', l_type = UDL, l_magnitude = w, l_endMagnitude = None,
                     l_position = a, l_endPosition = Some b\<rparr>"

section \<open>Element stiffness\<close>

lemma symmetric4_elementStiffness: "symmetric4 (elementStiffness EI Le)"
proof -
  have "m ! i ! j = m ! j ! i" if "i < 4" "j < 4" "m = elementStiffness EI Le" for i j m
  proof -
    have i: "i = 0 \<or> i = 1 \<or> i = 2 \<or> i = 3" using that(1) by arith
    have j: "j = 0 \<or> j = 1 \<or> j = 2 \<or> j = 3" using that(2) by arith
    show ?thesis using i j that(3)
      by (auto simp: elementStiffness_def Let_def)
  qed
  then show ?thesis by (simp add: symmetric4_def)
qed

text \<open>
  C4. For every rigidity \<open>EI\<close> and every element length \<open>Le \<noteq> 0\<close>, \<open>elementStiffness\<close>
  returns exactly \<open>EI / Le^3\<close> times the Euler-Bernoulli pattern in the order
  \<open>[v1, theta1, v2, theta2]\<close>, and the matrix is symmetric.
\<close>

theorem elementStiffness_spec:
  assumes "Le \<noteq> 0"
  shows "elementStiffness EI Le = spec_stiffness EI Le \<and> symmetric4 (elementStiffness EI Le)"
proof -
  have "elementStiffness EI Le = spec_stiffness EI Le"
    using assms
    by (simp add: elementStiffness_def spec_stiffness_def Let_def power2_eq_square
        power3_eq_cube field_simps)
  with symmetric4_elementStiffness [of EI Le] show ?thesis by blast
qed

theorem elementStiffness_spec_witness:
  "(2::real) \<noteq> 0 \<and> elementStiffness 4 2 = spec_stiffness 4 2
   \<and> elementStiffness 4 2 = [[6, 6, - 6, 6], [6, 8, - 6, 4], [- 6, - 6, 6, - 6], [6, 4, - 6, 8]]
   \<and> symmetric4 (elementStiffness 4 2)"
proof -
  have h: "(2::real) \<noteq> 0" by simp
  have "elementStiffness 4 2 = [[6, 6, - 6, 6], [6, 8, - 6, 4], [- 6, - 6, 6, - 6], [6, 4, - 6, 8]]"
    by (simp add: elementStiffness_def Let_def)
  with h elementStiffness_spec [OF h, of 4] show ?thesis by blast
qed


section \<open>Moment release\<close>

lemma upt4: "[0..<4] = [0, 1, 2, 3]"
  by (simp add: upt_rec)

text \<open>A release whose diagonal entry is below the guard leaves both arrays as they are.\<close>

lemma release_dof_skip: "\<bar>fst st ! r ! r\<bar> < 1 / 10 ^ 12 \<Longrightarrow> release_dof st r = st"
  by (simp add: release_dof_def Let_def)

text \<open>
  The release of the end rotation (\<open>r = 3\<close>) is the condensation of the specification: the
  column \<open>r\<close> and the row \<open>r\<close> are the last to be overwritten.
\<close>

lemma release_dof_end_condense:
  assumes "ke = [[a0, a1, a2, a3], [b0, b1, b2, b3], [c0, c1, c2, c3], [d0, d1, d2, d3]]"
    and "fe = [f0, f1, f2, f3]"
  shows "release_dof (ke, fe) 3 = condense 3 (ke, fe)"
  using assms
  by (simp add: release_dof_def release_row_def release_cell_def set2_def condense_def upt4 Let_def)

text \<open>
  C3. \<open>applyMomentRelease\<close> is claimed to apply, for each released degree of freedom, the
  static condensation computed from the values held at the start of the step. For the
  start rotation (\<open>r = 1\<close>) the code does not: the loop over \<open>j\<close> overwrites \<open>ke[i][1]\<close> and
  the row \<open>ke[1]\<close> before their last use. On the element of rigidity 1 and length 1, with a
  released start, the code returns the first matrix below and the condensation is the
  second.
\<close>

theorem applyMomentRelease_start_release_value:
  "applyMomentRelease (elementStiffness 1 1) [0, 0, 0, 0] True False
     = ([[3, 0, - 12, 6], [0, 0, - 6, 2], [- 12, - 6, 3, - 3], [6, 2, - 3, 3]], [0, 0, 0, 0])
   \<and> spec_applyMomentRelease (elementStiffness 1 1) [0, 0, 0, 0] True False
     = ([[3, 0, - 3, 3], [0, 0, 0, 0], [- 3, 0, 3, - 3], [3, 0, - 3, 3]], [0, 0, 0, 0])"
proof -
  have "applyMomentRelease (elementStiffness 1 1) [0, 0, 0, 0] True False
     = ([[3, 0, - 12, 6], [0, 0, - 6, 2], [- 12, - 6, 3, - 3], [6, 2, - 3, 3]], [0, 0, 0, 0])"
    by (simp add: applyMomentRelease_def release_dof_def release_row_def release_cell_def
        set2_def elementStiffness_def upt4 Let_def)
  moreover have "spec_applyMomentRelease (elementStiffness 1 1) [0, 0, 0, 0] True False
     = ([[3, 0, - 3, 3], [0, 0, 0, 0], [- 3, 0, 3, - 3], [3, 0, - 3, 3]], [0, 0, 0, 0])"
    by (simp add: spec_applyMomentRelease_def condense_def elementStiffness_def upt4 Let_def)
  ultimately show ?thesis by blast
qed

section \<open>Lengths of the arrays\<close>


lemma length_set2 [simp]: "length (set2 m i j v) = length m"
  by (simp add: set2_def)

lemma length_foldl_keep:
  assumes "\<And>a x. length (f a x) = length a"
  shows "length (foldl f a xs) = length a"
  using assms by (induction xs arbitrary: a) auto

lemma length_solve: "length (solve s b) = lu_n s"
  by (simp add: solve_def Let_def backward_step_def length_foldl_keep)

lemma lu_n_lu_column: "lu_n (lu_column s i) = lu_n s"
  by (simp add: lu_column_def Let_def split: prod.splits)

lemma lu_n_foldl_lu_column: "lu_n (foldl lu_column s is) = lu_n s"
  by (induction "is" arbitrary: s) (auto simp: lu_n_lu_column)

lemma lu_n_LUSolver_new: "lu_n (LUSolver_new K) = length K"
  by (simp add: LUSolver_new_def lu_n_foldl_lu_column lu_init_def)

lemma length_scatter_ke: "length (scatter_ke idxs ke K) = length K"
  by (simp add: scatter_ke_def length_foldl_keep)

lemma length_assemble_element: "length (assemble_element EI ns h K i) = length K"
  by (simp add: assemble_element_def Let_def length_scatter_ke)

lemma length_apply_support: "length (apply_support p ns K s) = length K"
  by (simp add: apply_support_def Let_def)

lemma length_globalStiffness: "length (globalStiffness EI ns h sups) = length ns * 2"
  by (simp add: globalStiffness_def Let_def length_foldl_keep length_assemble_element length_apply_support)

text \<open>The loop over the nodes writes each entry once.\<close>

lemma foldl_recover_node_split:
  "foldl (recover_node EI ns h U loads) (a, b) is
     = (foldl (\<lambda>sh i. sh[i := int_shear (getInternalAt EI ns h U (ns ! i) loads SLeft)]) a is,
        foldl (\<lambda>mo i. mo[i := (let m = int_moment (getInternalAt EI ns h U (ns ! i) loads SLeft)
                                 in if \<bar>m\<bar> < 1 / 10 ^ 7 then 0 else m)]) b is)"
  by (induction "is" arbitrary: a b) (simp_all add: recover_node_def Let_def)

lemma foldl_update_upt_nth:
  "n \<le> length xs \<Longrightarrow> i < n \<Longrightarrow> foldl (\<lambda>xs i. xs[i := f i]) xs [0..<n] ! i = f i"
proof (induction n arbitrary: i)
  case 0
  then show ?case by simp
next
  case (Suc n)
  have len: "length (foldl (\<lambda>xs i. xs[i := f i]) xs [0..<n]) = length xs"
    by (simp add: length_foldl_keep)
  show ?case
  proof (cases "i = n")
    case True
    then show ?thesis using Suc.prems len by simp
  next
    case False
    then have "i < n" using Suc.prems by simp
    then show ?thesis using Suc.IH [of i] Suc.prems False by simp
  qed
qed

lemma filter_enumerate_evens:
  "even n \<Longrightarrow> map snd (filter (\<lambda>(i, v). i mod 2 = 0) (enumerate n xs)) = evens xs"
  by (induction xs arbitrary: n rule: evens.induct) (auto simp: mod_2_eq_odd)

lemma length_evens: "length (evens xs) = (length xs + 1) div 2"
  by (induction xs rule: evens.induct) auto

lemma nth_evens: "2 * k < length xs \<Longrightarrow> evens xs ! k = xs ! (2 * k)"
proof (induction xs arbitrary: k rule: evens.induct)
  case (3 x y r)
  then show ?case by (cases k) auto
qed auto


section \<open>The mesh\<close>


lemma set_Set_add [simp]: "set (Set_add xs x) = insert x (set xs)"
  by (auto simp: Set_add_def)

lemma distinct_Set_add [simp]: "distinct (Set_add xs x) = distinct xs"
  by (auto simp: Set_add_def)

lemma set_criticalX:
  "set (criticalX L probeX supports loads) = critical_positions L probeX supports loads"
proof -
  have sup: "set (foldl (\<lambda>c s. Set_add c (s_position s)) c ss) = set c \<union> s_position ` set ss"
    for c and ss :: "Support list"
    by (induction ss arbitrary: c) auto
  have lds: "set (foldl add_load_bounds c ls) = set c \<union> (\<Union>l \<in> set ls. load_bounds l)" for c ls
    by (induction ls arbitrary: c)
       (auto simp: add_load_bounds_def Let_def load_bounds_def split: option.splits)
  show ?thesis
    by (auto simp: criticalX_def Let_def lds sup critical_positions_def)
qed

lemma distinct_criticalX: "distinct (criticalX L probeX supports loads)"
proof -
  have sup: "distinct (foldl (\<lambda>c s. Set_add c (s_position s)) c ss) = distinct c"
    for c and ss :: "Support list"
    by (induction ss arbitrary: c) auto
  have lds: "distinct (foldl add_load_bounds c ls) = distinct c" for c ls
    by (induction ls arbitrary: c) (auto simp: add_load_bounds_def Let_def split: option.splits)
  show ?thesis
    by (simp add: criticalX_def Let_def lds sup)
qed

lemma successively_map_upt:
  assumes "\<And>i. a \<le> i \<Longrightarrow> Suc i < b \<Longrightarrow> P (f i) (f (Suc i))"
  shows "successively P (map f [a..<b])"
  using assms by (simp add: successively_conv_nth)

text \<open>One interval of the mesh: the points of \<open>subdivide\<close>, followed by \<open>end\<close>.\<close>

lemma subdivide_eq_map:
  "subdivide mi s e =
     map (\<lambda>j. s + (real j * (e - s)) / real (nat (max 1 \<lceil>(e - s) / mi\<rceil>)))
       [0..<nat (max 1 \<lceil>(e - s) / mi\<rceil>)]"
proof -
  define n where "n = nat (max 1 \<lceil>(e - s) / mi\<rceil>)"
  have "0 < n" by (simp add: n_def)
  then have "[0..<n] = 0 # [1..<n]" by (simp add: upt_conv_Cons)
  then show ?thesis by (simp add: subdivide_def Let_def n_def [symmetric])
qed

lemma subdivide_step:
  assumes "s < e" "0 < mi"
  defines "n \<equiv> nat (max 1 \<lceil>(e - s) / mi\<rceil>)"
  shows "0 < n" "(e - s) / real n \<le> mi" "0 < (e - s) / real n"
proof -
  show n0: "0 < n" by (simp add: n_def)
  have "(e - s) / mi \<le> real_of_int \<lceil>(e - s) / mi\<rceil>" by (rule le_of_int_ceiling)
  also have "\<dots> \<le> real n" by (simp add: n_def)
  finally have "(e - s) / mi \<le> real n" .
  then have "e - s \<le> real n * mi" using assms(2) by (simp add: field_simps)
  then show "(e - s) / real n \<le> mi" using n0 by (simp add: field_simps)
  show "0 < (e - s) / real n" using assms(1) n0 by simp
qed

lemma subdivide_successively:
  assumes "s < e" "0 < mi"
  shows "successively (\<lambda>a b. a < b \<and> b - a \<le> mi) (subdivide mi s e @ [e])"
proof -
  define n where "n = nat (max 1 \<lceil>(e - s) / mi\<rceil>)"
  define p where "p = (\<lambda>j. s + (real j * (e - s)) / real n)"
  have n0: "0 < n" and d_le: "(e - s) / real n \<le> mi" and d_pos: "0 < (e - s) / real n"
    using subdivide_step [OF assms] by (simp_all add: n_def)
  have step: "p (Suc j) - p j = (e - s) / real n" for j
  proof -
    have "real (Suc j) * (e - s) = real j * (e - s) + (e - s)" by (simp add: algebra_simps)
    then show ?thesis by (simp add: p_def add_divide_distrib)
  qed
  have pn: "p n = e" using n0 by (simp add: p_def)
  have sub: "subdivide mi s e @ [e] = map p [0..<Suc n]"
    using pn by (simp add: subdivide_eq_map n_def [symmetric] p_def [symmetric])
  have "successively (\<lambda>a b. a < b \<and> b - a \<le> mi) (map p [0..<Suc n])"
  proof (rule successively_map_upt)
    fix i
    show "p i < p (Suc i) \<and> p (Suc i) - p i \<le> mi"
      using step [of i] d_le d_pos by linarith
  qed
  then show ?thesis by (simp only: sub)
qed

lemma hd_subdivide [simp]: "hd (subdivide mi s e) = s"
  by (simp add: subdivide_def Let_def)

lemma subdivide_nonempty [simp]: "subdivide mi s e \<noteq> []"
  by (simp add: subdivide_def Let_def)

lemma start_in_subdivide [simp]: "s \<in> set (subdivide mi s e)"
  by (simp add: subdivide_def Let_def)

lemma mesh_loop_props:
  assumes "sorted_wrt (<) xs" "xs \<noteq> []" "0 < mi"
  shows "successively (\<lambda>a b. a < b \<and> b - a \<le> mi) (mesh_loop mi xs @ [last xs])
         \<and> hd (mesh_loop mi xs @ [last xs]) = hd xs
         \<and> set xs \<subseteq> set (mesh_loop mi xs @ [last xs])"
  using assms
proof (induction mi xs rule: mesh_loop.induct)
  case (1 mi s e rest)
  let ?P = "\<lambda>a b. a < b \<and> b - a \<le> mi"
  let ?tl = "mesh_loop mi (e # rest) @ [last (e # rest)]"
  have se: "s < e" using "1.prems"(1) by simp
  have IH: "successively ?P ?tl" "hd ?tl = e" "set (e # rest) \<subseteq> set ?tl"
    using "1.IH" "1.prems" by simp_all
  have tl_ne: "?tl \<noteq> []" by simp
  have A: "successively ?P (subdivide mi s e @ [e])"
    by (rule subdivide_successively [OF se "1.prems"(3)])
  have whole: "mesh_loop mi (s # e # rest) @ [last (s # e # rest)] = subdivide mi s e @ ?tl"
    by simp
  have "successively ?P (subdivide mi s e @ ?tl)"
    using A IH(1) IH(2) tl_ne
    by (auto simp: successively_append_iff)
  moreover have "hd (subdivide mi s e @ ?tl) = s" by simp
  moreover have "set (s # e # rest) \<subseteq> set (subdivide mi s e @ ?tl)"
    using IH(3) by auto
  ultimately show ?case by (simp only: whole list.sel)
qed simp_all



section \<open>The closest node\<close>


lemma closest_invariant:
  assumes "n \<le> length ns" "0 < n"
  shows "fst (foldl (closest_step ns x) (None, 0) [0..<n])
           = Some \<bar>ns ! snd (foldl (closest_step ns x) (None, 0) [0..<n]) - x\<bar>
         \<and> snd (foldl (closest_step ns x) (None, 0) [0..<n]) < n
         \<and> (\<forall>i < n. \<bar>ns ! snd (foldl (closest_step ns x) (None, 0) [0..<n]) - x\<bar> \<le> \<bar>ns ! i - x\<bar>)"
  using assms
proof (induction n)
  case 0
  then show ?case by simp
next
  case (Suc n)
  show ?case
  proof (cases "n = 0")
    case True
    then show ?thesis by (simp add: closest_step_def)
  next
    case False
    define st where "st = foldl (closest_step ns x) (None, 0) [0..<n]"
    have IH: "fst st = Some \<bar>ns ! snd st - x\<bar>" "snd st < n"
      "\<forall>i < n. \<bar>ns ! snd st - x\<bar> \<le> \<bar>ns ! i - x\<bar>"
      using Suc False by (simp_all add: st_def)
    have step: "foldl (closest_step ns x) (None, 0) [0..<Suc n] = closest_step ns x st n"
      by (simp add: st_def)
    show ?thesis
      unfolding step using IH by (auto simp: closest_step_def Let_def less_Suc_eq)
  qed
qed

lemma findClosestNodeIndex_less:
  "ns \<noteq> [] \<Longrightarrow> findClosestNodeIndex ns x < length ns"
  using closest_invariant [of "length ns" ns x] by (simp add: findClosestNodeIndex_def)

lemma findClosestNodeIndex_closest:
  "i < length ns \<Longrightarrow> \<bar>ns ! findClosestNodeIndex ns x - x\<bar> \<le> \<bar>ns ! i - x\<bar>"
  using closest_invariant [of "length ns" ns x] by (cases "ns = []") (simp_all add: findClosestNodeIndex_def)

lemma findClosestNodeIndex_exact:
  assumes "x \<in> set ns"
  shows "ns ! findClosestNodeIndex ns x = x"
proof -
  obtain i where i: "i < length ns" "ns ! i = x" using assms by (auto simp: in_set_conv_nth)
  have "\<bar>ns ! findClosestNodeIndex ns x - x\<bar> \<le> \<bar>ns ! i - x\<bar>"
    by (rule findClosestNodeIndex_closest [OF i(1)])
  then show ?thesis using i(2) by simp
qed


section \<open>The mesh contract\<close>


lemma analyzeBeam_Inr:
  "analyzeBeam config supports loads probeX = Inr r \<Longrightarrow>
     0 < cfg_length config \<and> 0 < EI_of config \<and>
     r = analysis (cfg_length config) (EI_of config) supports loads probeX"
  by (auto simp: analyzeBeam_def EI_of_def Let_def split: if_splits)

lemma analysis_nodes:
  "nodes (analysis L EI supports loads probeX) = generateNodes L probeX supports loads"
  by (simp add: analysis_def Let_def)


lemma sorted_last_is_max:
  assumes "sorted xs" "x \<in> set xs" "\<forall>y \<in> set xs. y \<le> x"
  shows "last xs = (x::real)"
proof -
  have ne: "xs \<noteq> []" using assms(2) by auto
  have "last xs \<in> set xs" using ne by simp
  then have "last xs \<le> x" using assms(3) by blast
  moreover have "x \<le> last xs"
    using assms(1,2) by (induction xs) (auto split: if_splits)
  ultimately show ?thesis by simp
qed

lemma sorted_hd_is_min:
  assumes "sorted xs" "x \<in> set xs" "\<forall>y \<in> set xs. x \<le> y"
  shows "hd xs = (x::real)"
proof -
  have ne: "xs \<noteq> []" using assms(2) by auto
  have "hd xs \<in> set xs" using ne by simp
  then have "x \<le> hd xs" using assms(3) by blast
  moreover have "hd xs \<le> x" using assms(1,2) ne by (cases xs) auto
  ultimately show ?thesis by simp
qed

lemma generateNodes_props:
  assumes L: "0 < L"
    and range: "\<forall>x \<in> critical_positions L probeX supports loads. 0 \<le> x \<and> x \<le> L"
  defines "ns \<equiv> generateNodes L probeX supports loads"
  shows "successively (\<lambda>a b. a < b \<and> b - a \<le> max (1 / 10) (L / 100)) ns"
    and "hd ns = 0" and "last ns = L"
    and "critical_positions L probeX supports loads \<subseteq> set ns"
proof -
  define xs where "xs = sort (criticalX L probeX supports loads)"
  define mi where "mi = max (1 / 10) (L / 100)"
  have set_xs: "set xs = critical_positions L probeX supports loads"
    by (simp add: xs_def set_criticalX)
  have srt: "sorted xs" by (simp add: xs_def)
  have strict: "sorted_wrt (<) xs"
    by (simp add: strict_sorted_iff xs_def distinct_criticalX)
  have zero_in: "0 \<in> set xs" and L_in: "L \<in> set xs"
    by (simp_all add: set_xs critical_positions_def)
  have ne: "xs \<noteq> []" using zero_in by auto
  have hd_xs: "hd xs = 0"
    using srt zero_in range by (intro sorted_hd_is_min) (auto simp: set_xs)
  have last_xs: "last xs = L"
    using srt L_in range by (intro sorted_last_is_max) (auto simp: set_xs)
  have mi: "0 < mi" by (simp add: mi_def max_def)
  have ns: "ns = mesh_loop mi xs @ [last xs]"
    by (simp add: ns_def generateNodes_def Let_def xs_def mi_def last_xs [unfolded xs_def])
  note P = mesh_loop_props [OF strict ne mi]
  show "successively (\<lambda>a b. a < b \<and> b - a \<le> max (1 / 10) (L / 100)) ns"
    using P by (simp add: ns mi_def)
  show "hd ns = 0" using P hd_xs by (simp only: ns)
  show "last ns = L" by (simp add: ns last_xs)
  show "critical_positions L probeX supports loads \<subseteq> set ns"
    using P by (simp only: ns set_xs)
qed


lemma generateNodes_two:
  assumes "0 < L" "\<forall>x \<in> critical_positions L probeX supports loads. 0 \<le> x \<and> x \<le> L"
  shows "2 \<le> length (generateNodes L probeX supports loads)"
proof -
  note P = generateNodes_props [OF assms]
  let ?ns = "generateNodes L probeX supports loads"
  have "hd ?ns \<noteq> last ?ns" using P(2,3) assms(1) by simp
  then show ?thesis
    by (cases ?ns rule: list.exhaust; cases "tl ?ns") (auto simp: generateNodes_def Let_def)
qed

section \<open>The mesh in double precision\<close>

text \<open>Whatever the rounding does, the critical values are emitted as they are.\<close>

lemma hd_subdivide64 [simp]: "hd (subdivide64 mi s e) = s"
  by (simp add: subdivide64_def Let_def)

lemma subdivide64_nonempty [simp]: "subdivide64 mi s e \<noteq> []"
  by (simp add: subdivide64_def Let_def)

lemma start_in_subdivide64 [simp]: "s \<in> set (subdivide64 mi s e)"
  by (simp add: subdivide64_def Let_def)










section \<open>Determinacy and stability\<close>

lemma analysis_determinacy:
  "determinacy (analysis L EI supports loads probeX)
     = reactionCount supports - 3
       - int (length (hingeNodes (generateNodes L probeX supports loads) supports))"
  by (simp add: analysis_def Let_def)

lemma analysis_isStable:
  "isStable (analysis L EI supports loads probeX) = (3 \<le> reactionCount supports)"
  by (simp add: analysis_def Let_def)

lemma reactionCount_sum: "reactionCount supports = (\<Sum>s\<leftarrow>supports. reaction_weight (s_type s))"
proof -
  have w: "(if s_type s = FIXED then 2 else (if s_type s = HINGE then 0 else 1))
             = reaction_weight (s_type s)" for s :: Support
    by (cases "s_type s") simp_all
  have "foldl (\<lambda>acc s. acc + (if s_type s = FIXED then 2 else (if s_type s = HINGE then 0 else 1)))
          a supports = a + (\<Sum>s\<leftarrow>supports. reaction_weight (s_type s))" for a
    by (induction supports arbitrary: a) (simp_all add: w)
  then show ?thesis by (simp add: reactionCount_def)
qed

lemma hingeNodes_fold:
  "distinct h \<Longrightarrow>
   distinct (foldl (\<lambda>h s. if s_type s = HINGE
                   then Set_add h (findClosestNodeIndex ns (s_position s)) else h) h ss)
   \<and> set (foldl (\<lambda>h s. if s_type s = HINGE
                   then Set_add h (findClosestNodeIndex ns (s_position s)) else h) h ss)
      = set h \<union> (\<lambda>s. findClosestNodeIndex ns (s_position s)) ` {s \<in> set ss. s_type s = HINGE}"
  by (induction ss arbitrary: h) auto

lemma distinct_hingeNodes: "distinct (hingeNodes ns ss)"
  using hingeNodes_fold [of "[]" ns ss] by (simp add: hingeNodes_def)

lemma set_hingeNodes:
  "set (hingeNodes ns ss)
     = (\<lambda>s. findClosestNodeIndex ns (s_position s)) ` {s \<in> set ss. s_type s = HINGE}"
  using hingeNodes_fold [of "[]" ns ss] by (simp add: hingeNodes_def)

lemma length_hingeNodes:
  "length (hingeNodes ns ss)
     = card ((\<lambda>s. findClosestNodeIndex ns (s_position s)) ` {s \<in> set ss. s_type s = HINGE})"
  using distinct_card [OF distinct_hingeNodes, of ns ss] by (simp add: set_hingeNodes)

text \<open>Hinges at distinct positions of the mesh snap to distinct nodes.\<close>

lemma hinge_count_distinct:
  assumes "s_position ` set ss \<subseteq> set ns"
    and "distinct (map s_position (filter (\<lambda>s. s_type s = HINGE) ss))"
  shows "length (hingeNodes ns ss) = length (filter (\<lambda>s. s_type s = HINGE) ss)"
proof -
  let ?hs = "filter (\<lambda>s. s_type s = HINGE) ss"
  let ?f = "\<lambda>x. findClosestNodeIndex ns x"
  have inj: "inj_on ?f (set (map s_position ?hs))"
  proof (rule inj_onI)
    fix x y assume "x \<in> set (map s_position ?hs)" "y \<in> set (map s_position ?hs)" "?f x = ?f y"
    then have "x \<in> set ns" "y \<in> set ns" "ns ! ?f x = ns ! ?f y" using assms(1) by auto
    then show "x = y" by (simp add: findClosestNodeIndex_exact)
  qed
  have "distinct (map ?f (map s_position ?hs))"
    using assms(2) inj by (simp only: distinct_map)
  then have "card (set (map ?f (map s_position ?hs))) = length ?hs"
    using distinct_card by fastforce
  moreover have "set (map ?f (map s_position ?hs))
        = (\<lambda>s. findClosestNodeIndex ns (s_position s)) ` {s \<in> set ss. s_type s = HINGE}"
    by auto
  ultimately show ?thesis by (simp add: length_hingeNodes)
qed

text \<open>
  What the code computes in general: \<open>reactionCount - 3 - hingesCount\<close>, where
  \<open>reactionCount\<close> adds 2 for a FIXED, 1 for a PINNED or ROLLER and 0 for a HINGE support
  and \<open>hingesCount\<close> is the size of the set of hinge nodes (the number of HINGE supports
  when they lie at pairwise distinct positions of the mesh); two supports that are PINNED
  and ROLLER get \<open>-1\<close>, two that are FIXED and ROLLER get \<open>0\<close>.
\<close>

lemma determinacy_formula:
  assumes "analyzeBeam config supports loads probeX = Inr r"
  shows "determinacy r = (\<Sum>s\<leftarrow>supports. reaction_weight (s_type s)) - 3
            - int (card ((\<lambda>s. findClosestNodeIndex (nodes r) (s_position s))
                           ` {s \<in> set supports. s_type s = HINGE}))
     \<and> isStable r = (3 \<le> (\<Sum>s\<leftarrow>supports. reaction_weight (s_type s)))
     \<and> ((\<forall>x \<in> critical_positions (cfg_length config) probeX supports loads.
            0 \<le> x \<and> x \<le> cfg_length config)
          \<and> distinct (map s_position (filter (\<lambda>s. s_type s = HINGE) supports))
        \<longrightarrow> card ((\<lambda>s. findClosestNodeIndex (nodes r) (s_position s))
                           ` {s \<in> set supports. s_type s = HINGE})
              = length (filter (\<lambda>s. s_type s = HINGE) supports))
     \<and> (\<forall>a b. supports = [a, b] \<and> {s_type a, s_type b} = {PINNED, ROLLER}
            \<longrightarrow> determinacy r = - 1 \<and> \<not> isStable r)
     \<and> (\<forall>a b. supports = [a, b] \<and> {s_type a, s_type b} = {FIXED, ROLLER}
            \<longrightarrow> determinacy r = 0 \<and> isStable r)"
proof -
  let ?L = "cfg_length config"
  have L: "0 < ?L" and r: "r = analysis ?L (EI_of config) supports loads probeX"
    using analyzeBeam_Inr [OF assms] by simp_all
  have ns: "nodes r = generateNodes ?L probeX supports loads" by (simp add: r analysis_nodes)
  have d: "determinacy r = (\<Sum>s\<leftarrow>supports. reaction_weight (s_type s)) - 3
            - int (card ((\<lambda>s. findClosestNodeIndex (nodes r) (s_position s))
                           ` {s \<in> set supports. s_type s = HINGE}))"
    by (simp add: ns length_hingeNodes [symmetric]) (simp add: r analysis_determinacy reactionCount_sum)
  have st: "isStable r = (3 \<le> (\<Sum>s\<leftarrow>supports. reaction_weight (s_type s)))"
    by (simp add: r analysis_isStable reactionCount_sum)
  have c: "card ((\<lambda>s. findClosestNodeIndex (nodes r) (s_position s))
                           ` {s \<in> set supports. s_type s = HINGE})
              = length (filter (\<lambda>s. s_type s = HINGE) supports)"
    if range: "\<forall>x \<in> critical_positions ?L probeX supports loads. 0 \<le> x \<and> x \<le> ?L"
      and dist: "distinct (map s_position (filter (\<lambda>s. s_type s = HINGE) supports))"
  proof -
    have "critical_positions ?L probeX supports loads \<subseteq> set (nodes r)"
      using generateNodes_props(4) [OF L range] by (simp add: ns)
    then have "s_position ` set supports \<subseteq> set (nodes r)"
      by (auto simp: critical_positions_def)
    from hinge_count_distinct [OF this dist] show ?thesis by (simp add: length_hingeNodes)
  qed
  have two: "determinacy r = (\<Sum>s\<leftarrow>supports. reaction_weight (s_type s)) - 3"
    if "supports = [a, b]" "s_type a \<noteq> HINGE" "s_type b \<noteq> HINGE" for a b
  proof -
    have "{s \<in> set supports. s_type s = HINGE} = {}" using that by auto
    then show ?thesis by (simp add: d)
  qed
  have pr: "determinacy r = - 1 \<and> \<not> isStable r"
    if h: "supports = [a, b] \<and> {s_type a, s_type b} = {PINNED, ROLLER}" for a b
  proof -
    have sup: "supports = [a, b]" using h by (rule conjunct1)
    have t: "s_type a = PINNED \<and> s_type b = ROLLER \<or> s_type a = ROLLER \<and> s_type b = PINNED"
      using conjunct2 [OF h] by (auto simp: doubleton_eq_iff)
    then have nh: "s_type a \<noteq> HINGE" "s_type b \<noteq> HINGE" by auto
    have sum: "(\<Sum>s\<leftarrow>supports. reaction_weight (s_type s)) = 2"
      using t by (auto simp: sup)
    have "determinacy r = 2 - 3" using two [OF sup nh] by (simp only: sum)
    moreover have "\<not> isStable r" unfolding st sum by simp
    ultimately show ?thesis by simp
  qed
  have fr: "determinacy r = 0 \<and> isStable r"
    if h: "supports = [a, b] \<and> {s_type a, s_type b} = {FIXED, ROLLER}" for a b
  proof -
    have sup: "supports = [a, b]" using h by (rule conjunct1)
    have t: "s_type a = FIXED \<and> s_type b = ROLLER \<or> s_type a = ROLLER \<and> s_type b = FIXED"
      using conjunct2 [OF h] by (auto simp: doubleton_eq_iff)
    then have nh: "s_type a \<noteq> HINGE" "s_type b \<noteq> HINGE" by auto
    have sum: "(\<Sum>s\<leftarrow>supports. reaction_weight (s_type s)) = 3"
      using t by (auto simp: sup)
    have "determinacy r = 3 - 3" using two [OF sup nh] by (simp only: sum)
    moreover have "isStable r" unfolding st sum by simp
    ultimately show ?thesis by simp
  qed
  show ?thesis
  proof (intro conjI allI impI)
    show "determinacy r = (\<Sum>s\<leftarrow>supports. reaction_weight (s_type s)) - 3
            - int (card ((\<lambda>s. findClosestNodeIndex (nodes r) (s_position s))
                           ` {s \<in> set supports. s_type s = HINGE}))"
      by (rule d)
    show "isStable r = (3 \<le> (\<Sum>s\<leftarrow>supports. reaction_weight (s_type s)))"
      by (rule st)
    show "card ((\<lambda>s. findClosestNodeIndex (nodes r) (s_position s))
                           ` {s \<in> set supports. s_type s = HINGE})
              = length (filter (\<lambda>s. s_type s = HINGE) supports)"
      if "(\<forall>x \<in> critical_positions ?L probeX supports loads. 0 \<le> x \<and> x \<le> ?L)
          \<and> distinct (map s_position (filter (\<lambda>s. s_type s = HINGE) supports))"
      using c [OF conjunct1 [OF that] conjunct2 [OF that]] .
    show "determinacy r = - 1"
      if "supports = [a, b] \<and> {s_type a, s_type b} = {PINNED, ROLLER}" for a b
      using pr [OF that] by (rule conjunct1)
    show "\<not> isStable r"
      if "supports = [a, b] \<and> {s_type a, s_type b} = {PINNED, ROLLER}" for a b
      using pr [OF that] by (rule conjunct2)
    show "determinacy r = 0"
      if "supports = [a, b] \<and> {s_type a, s_type b} = {FIXED, ROLLER}" for a b
      using fr [OF that] by (rule conjunct1)
    show "isStable r"
      if "supports = [a, b] \<and> {s_type a, s_type b} = {FIXED, ROLLER}" for a b
      using fr [OF that] by (rule conjunct2)
  qed
qed

lemma determinacy_hinged_beam:
  "\<exists>r. analyzeBeam short_config
          [support_at ''1'' FIXED 0, support_at ''h'' HINGE (1 / 5), support_at ''2'' ROLLER (2 / 5)]
          [] (1 / 5) = Inr r
     \<and> determinacy r = - 1 \<and> isStable r"
proof -
  let ?sups = "[support_at ''1'' FIXED 0, support_at ''h'' HINGE (1 / 5),
                support_at ''2'' ROLLER (2 / 5)]"
  let ?r = "analysis (2 / 5) (EI_of short_config) ?sups [] (1 / 5)"
  have run: "analyzeBeam short_config ?sups [] (1 / 5) = Inr ?r"
    by (simp add: analyzeBeam_def short_config_def EI_of_def Let_def)
  have hs: "{s \<in> set ?sups. s_type s = HINGE} = {support_at ''h'' HINGE (1 / 5)}"
    by (auto simp: support_at_def)
  have img: "(\<lambda>s. findClosestNodeIndex (nodes ?r) (s_position s))
               ` {s \<in> set ?sups. s_type s = HINGE} = {findClosestNodeIndex (nodes ?r) (1 / 5)}"
    by (simp only: hs) (simp add: support_at_def)
  have sum: "(\<Sum>s\<leftarrow>?sups. reaction_weight (s_type s)) = 3"
    by (simp add: support_at_def)
  note F = determinacy_formula [OF run]
  have "determinacy ?r = (\<Sum>s\<leftarrow>?sups. reaction_weight (s_type s)) - 3
            - int (card ((\<lambda>s. findClosestNodeIndex (nodes ?r) (s_position s))
                           ` {s \<in> set ?sups. s_type s = HINGE}))"
    by (rule conjunct1 [OF F])
  then have d: "determinacy ?r = - 1" unfolding img sum by simp
  have "isStable ?r = (3 \<le> (\<Sum>s\<leftarrow>?sups. reaction_weight (s_type s)))"
    by (rule conjunct1 [OF conjunct2 [OF F]])
  then have st: "isStable ?r" unfolding sum by simp
  show ?thesis by (rule exI [of _ ?r]) (simp only: run d st simp_thms)
qed

text \<open>
  C6. The claim: \<open>determinacy = reactionCount - 3 - hingeCount\<close>, and in particular \<open>0\<close> for
  one PINNED plus one ROLLER support and \<open>1\<close> for one FIXED plus one ROLLER. The code does
  not return these values: it counts one reaction for a PINNED support and two for a
  FIXED one and still subtracts three. On the beam the application starts with
  (\<open>INITIAL_CONFIG\<close>, \<open>INITIAL_SUPPORTS\<close>, \<open>INITIAL_LOADS\<close> of App.tsx: PINNED at \<open>0\<close>, ROLLER
  at \<open>10\<close>, probe at \<open>5\<close>) it returns the determinacy \<open>-1\<close> and classifies the beam unstable;
  with the first support FIXED it returns \<open>0\<close>.
\<close>

theorem determinacy_initial_beam_value:
  "(\<exists>r. analyzeBeam initial_config
          [support_at ''1'' PINNED 0, support_at ''2'' ROLLER 10] [udl_load 10 0 10] 5 = Inr r
        \<and> determinacy r = - 1 \<and> \<not> isStable r)
   \<and> (\<exists>r. analyzeBeam initial_config
          [support_at ''1'' FIXED 0, support_at ''2'' ROLLER 10] [udl_load 10 0 10] 5 = Inr r
        \<and> determinacy r = 0 \<and> isStable r)"
proof (intro conjI)
  let ?sups = "[support_at ''1'' PINNED 0, support_at ''2'' ROLLER 10]"
  let ?r = "analysis 10 (EI_of initial_config) ?sups [udl_load 10 0 10] 5"
  have run: "analyzeBeam initial_config ?sups [udl_load 10 0 10] 5 = Inr ?r"
    by (simp add: analyzeBeam_def initial_config_def EI_of_def Let_def)
  have "determinacy ?r = - 1"
    by (simp add: analysis_determinacy reactionCount_def hingeNodes_def support_at_def)
  moreover have "\<not> isStable ?r"
    by (simp add: analysis_isStable reactionCount_def support_at_def)
  ultimately show "\<exists>r. analyzeBeam initial_config ?sups [udl_load 10 0 10] 5 = Inr r
        \<and> determinacy r = - 1 \<and> \<not> isStable r"
    using run by simp
next
  let ?sups = "[support_at ''1'' FIXED 0, support_at ''2'' ROLLER 10]"
  let ?r = "analysis 10 (EI_of initial_config) ?sups [udl_load 10 0 10] 5"
  have run: "analyzeBeam initial_config ?sups [udl_load 10 0 10] 5 = Inr ?r"
    by (simp add: analyzeBeam_def initial_config_def EI_of_def Let_def)
  have "determinacy ?r = 0"
    by (simp add: analysis_determinacy reactionCount_def hingeNodes_def support_at_def)
  moreover have "isStable ?r"
    by (simp add: analysis_isStable reactionCount_def support_at_def)
  ultimately show "\<exists>r. analyzeBeam initial_config ?sups [udl_load 10 0 10] 5 = Inr r
        \<and> determinacy r = 0 \<and> isStable r"
    using run by simp
qed

section \<open>The arrays of the result\<close>

lemma length_mesh_loop: "length xs - 1 \<le> length (mesh_loop mi xs)"
  by (induction mi xs rule: mesh_loop.induct) (simp_all add: subdivide_def Let_def)

lemma generateNodes_length:
  assumes "L \<noteq> 0"
  shows "2 \<le> length (generateNodes L probeX supports loads)"
proof -
  let ?xs = "sort (criticalX L probeX supports loads)"
  have "{0, L} \<subseteq> set ?xs" by (simp add: set_criticalX critical_positions_def)
  then have "card {0, L} \<le> card (set ?xs)" by (intro card_mono) simp_all
  also have "\<dots> \<le> length ?xs" by (rule card_length)
  finally have "2 \<le> length ?xs" using assms by simp
  then have "1 \<le> length (mesh_loop (max (1 / 10) (L / 100)) ?xs)"
    using length_mesh_loop [of ?xs "max (1 / 10) (L / 100)"] by linarith
  then show ?thesis by (simp add: generateNodes_def Let_def)
qed

lemma length_mainDisplacements:
  "length (mainDisplacements L EI supports loads probeX)
     = length (generateNodes L probeX supports loads) * 2"
  by (simp add: mainDisplacements_def beamSolver_def Let_def length_solve lu_n_LUSolver_new
      length_globalStiffness)

lemma analysis_shearForce:
  "shearForce (analysis L EI supports loads probeX)
     = fst (foldl (recover_node EI (generateNodes L probeX supports loads)
                (hingeNodes (generateNodes L probeX supports loads) supports)
                (mainDisplacements L EI supports loads probeX) loads)
         (replicate (length (generateNodes L probeX supports loads)) 0,
          replicate (length (generateNodes L probeX supports loads)) 0)
         [0..<length (generateNodes L probeX supports loads)])"
  by (simp add: analysis_def mainDisplacements_def beamSolver_def Let_def)

lemma analysis_bendingMoment:
  "bendingMoment (analysis L EI supports loads probeX)
     = snd (foldl (recover_node EI (generateNodes L probeX supports loads)
                (hingeNodes (generateNodes L probeX supports loads) supports)
                (mainDisplacements L EI supports loads probeX) loads)
         (replicate (length (generateNodes L probeX supports loads)) 0,
          replicate (length (generateNodes L probeX supports loads)) 0)
         [0..<length (generateNodes L probeX supports loads)])"
  by (simp add: analysis_def mainDisplacements_def beamSolver_def Let_def)

lemma recover_length:
  "length (fst (foldl (recover_node EI ns h U loads) (a, b) is)) = length a"
  "length (snd (foldl (recover_node EI ns h U loads) (a, b) is)) = length b"
  unfolding foldl_recover_node_split fst_conv snd_conv
  by (rule length_foldl_keep, simp)+

lemma recover_nth:
  assumes "i < n"
  shows "fst (foldl (recover_node EI ns h U loads) (replicate n 0, replicate n 0) [0..<n]) ! i
           = int_shear (getInternalAt EI ns h U (ns ! i) loads SLeft)"
    and "snd (foldl (recover_node EI ns h U loads) (replicate n 0, replicate n 0) [0..<n]) ! i
           = (let m = int_moment (getInternalAt EI ns h U (ns ! i) loads SLeft)
              in if \<bar>m\<bar> < 1 / 10 ^ 7 then 0 else m)"
  unfolding foldl_recover_node_split fst_conv snd_conv
  using assms by (rule_tac [!] foldl_update_upt_nth) simp_all

lemma analysis_deflection:
  "deflection (analysis L EI supports loads probeX)
     = map (\<lambda>v. v * 1000) (evens (mainDisplacements L EI supports loads probeX))"
  by (simp add: analysis_def mainDisplacements_def beamSolver_def Let_def filter_enumerate_evens)

lemma length_analysis_arrays:
  "length (shearForce (analysis L EI supports loads probeX))
     = length (generateNodes L probeX supports loads)"
  "length (bendingMoment (analysis L EI supports loads probeX))
     = length (generateNodes L probeX supports loads)"
  "length (deflection (analysis L EI supports loads probeX))
     = length (generateNodes L probeX supports loads)"
  "length (reactions (analysis L EI supports loads probeX))
     = length (filter (\<lambda>s. s_type s \<noteq> HINGE) supports)"
proof -
  let ?r = "analysis L EI supports loads probeX"
  show "length (shearForce ?r) = length (generateNodes L probeX supports loads)"
    by (simp only: analysis_shearForce recover_length length_replicate)
  show "length (bendingMoment ?r) = length (generateNodes L probeX supports loads)"
    by (simp only: analysis_bendingMoment recover_length length_replicate)
  show "length (deflection ?r) = length (generateNodes L probeX supports loads)"
    by (simp add: analysis_deflection length_evens length_mainDisplacements)
  show "length (reactions ?r) = length (filter (\<lambda>s. s_type s \<noteq> HINGE) supports)"
    by (simp add: analysis_def Let_def)
qed

text \<open>
  C10. Each entry of \<open>bendingMoment\<close> is the recovered moment, replaced by \<open>0\<close> when its
  absolute value is below \<open>1e-7\<close>; \<open>shearForce\<close> holds the recovered shear and \<open>deflection\<close>
  the translation times 1000, as they are.
\<close>

theorem bendingMoment_snap:
  assumes "analyzeBeam config supports loads probeX = Inr r" and "i < length (nodes r)"
  shows "bendingMoment r ! i
         = (let m = int_moment (getInternalAt (EI_of config) (nodes r)
                     (hingeNodes (nodes r) supports)
                     (mainDisplacements (cfg_length config) (EI_of config) supports loads probeX)
                     (nodes r ! i) loads SLeft)
            in if \<bar>m\<bar> < 1 / 10 ^ 7 then 0 else m)
     \<and> shearForce r ! i
         = int_shear (getInternalAt (EI_of config) (nodes r) (hingeNodes (nodes r) supports)
                     (mainDisplacements (cfg_length config) (EI_of config) supports loads probeX)
                     (nodes r ! i) loads SLeft)
     \<and> deflection r ! i
         = mainDisplacements (cfg_length config) (EI_of config) supports loads probeX ! (2 * i)
           * 1000"
proof -
  let ?L = "cfg_length config" and ?EI = "EI_of config"
  let ?ns = "generateNodes ?L probeX supports loads"
  let ?U = "mainDisplacements ?L ?EI supports loads probeX"
  have r: "r = analysis ?L ?EI supports loads probeX"
    using analyzeBeam_Inr [OF assms(1)] by simp
  have ns: "nodes r = ?ns" by (simp add: r analysis_nodes)
  have i: "i < length ?ns" using assms(2) by (simp add: ns)
  have sh: "shearForce r ! i = int_shear (getInternalAt ?EI ?ns (hingeNodes ?ns supports) ?U
              (?ns ! i) loads SLeft)"
    unfolding r analysis_shearForce by (rule recover_nth(1) [OF i])
  have mo: "bendingMoment r ! i
        = (let m = int_moment (getInternalAt ?EI ?ns (hingeNodes ?ns supports) ?U
              (?ns ! i) loads SLeft) in if \<bar>m\<bar> < 1 / 10 ^ 7 then 0 else m)"
    unfolding r analysis_bendingMoment by (rule recover_nth(2) [OF i])
  have "2 * i < length ?U" using i by (simp add: length_mainDisplacements)
  then have de: "deflection r ! i = ?U ! (2 * i) * 1000"
    using i by (simp add: r analysis_deflection nth_evens length_evens length_mainDisplacements)
  show ?thesis unfolding ns Let_def using sh mo de by (simp only: Let_def)
qed


theorem bendingMoment_snap_witness:
  "\<exists>r. analyzeBeam short_config
          [support_at ''1'' PINNED 0, support_at ''2'' ROLLER (2 / 5)]
          [udl_load 10 0 (2 / 5)] (1 / 5) = Inr r
     \<and> 0 < length (nodes r)
     \<and> bendingMoment r ! 0
         = (let m = int_moment (getInternalAt (EI_of short_config) (nodes r)
                     (hingeNodes (nodes r) [support_at ''1'' PINNED 0, support_at ''2'' ROLLER (2 / 5)])
                     (mainDisplacements (cfg_length short_config) (EI_of short_config)
                        [support_at ''1'' PINNED 0, support_at ''2'' ROLLER (2 / 5)]
                        [udl_load 10 0 (2 / 5)] (1 / 5))
                     (nodes r ! 0) [udl_load 10 0 (2 / 5)] SLeft)
            in if \<bar>m\<bar> < 1 / 10 ^ 7 then 0 else m)
     \<and> deflection r ! 0
         = mainDisplacements (cfg_length short_config) (EI_of short_config)
             [support_at ''1'' PINNED 0, support_at ''2'' ROLLER (2 / 5)]
             [udl_load 10 0 (2 / 5)] (1 / 5) ! (2 * 0) * 1000"
proof -
  let ?sups = "[support_at ''1'' PINNED 0, support_at ''2'' ROLLER (2 / 5)]"
  let ?lds = "[udl_load 10 0 (2 / 5)]"
  let ?r = "analysis (2 / 5) (EI_of short_config) ?sups ?lds (1 / 5)"
  have run: "analyzeBeam short_config ?sups ?lds (1 / 5) = Inr ?r"
    by (simp add: analyzeBeam_def short_config_def EI_of_def Let_def)
  have "2 \<le> length (generateNodes (2 / 5) (1 / 5) ?sups ?lds)"
    by (rule generateNodes_length) simp
  then have len: "0 < length (nodes ?r)" unfolding analysis_nodes by linarith
  note S = bendingMoment_snap [OF run len]
  show ?thesis
    by (rule exI [of _ ?r]) (intro conjI run len conjunct1 [OF S] conjunct2 [OF conjunct2 [OF S]])
qed



section \<open>Influence lines\<close>

text \<open>The keys stored before the sweep: one per support that is not a hinge.\<close>

lemma ild_init:
  "foldl (\<lambda>m s. if s_type s \<noteq> HINGE then m(s_id s \<mapsto> []) else m) m0 supports k
     = (if k \<in> s_id ` {s \<in> set supports. s_type s \<noteq> HINGE} then Some [] else m0 k)"
  by (induction supports arbitrary: m0) auto

text \<open>
  One station: every support that is not a hinge appends one point with abscissa \<open>x\<close> to
  the series of its id.
\<close>

lemma ild_push_xs:
  "map_option (map ild_x) (foldl (ild_push_reaction penalty ns x U) m supports k)
     = map_option (\<lambda>xs. xs @ replicate (length (filter (\<lambda>s. s_type s \<noteq> HINGE \<and> s_id s = k) supports)) x)
         (map_option (map ild_x) (m k))"
proof (induction supports arbitrary: m)
  case Nil
  then show ?case by (cases "m k") simp_all
next
  case (Cons s ss)
  show ?case
  proof (cases "s_type s = HINGE")
    case True
    then show ?thesis using Cons.IH [of m] by (simp add: ild_push_reaction_def)
  next
    case False
    show ?thesis
    proof (cases "m (s_id s)")
      case None
      then have step: "ild_push_reaction penalty ns x U m s = m"
        using False by (simp add: ild_push_reaction_def Let_def)
      show ?thesis
      proof (cases "s_id s = k")
        case True
        then show ?thesis using Cons.IH [of m] None by (simp add: step)
      next
        case neq: False
        then show ?thesis using Cons.IH [of m] False by (simp add: step)
      qed
    next
      case (Some ps)
      define pt where "pt = \<lparr>ild_x = x, ild_value = (penalty * U ! (findClosestNodeIndex ns (s_position s) * 2)) / (- 1000)\<rparr>"
      have step: "ild_push_reaction penalty ns x U m s = m(s_id s \<mapsto> ps @ [pt])"
        using False Some by (simp add: ild_push_reaction_def Let_def pt_def)
      have x: "ild_x pt = x" by (simp add: pt_def)
      show ?thesis
      proof (cases "s_id s = k")
        case True
        then show ?thesis
          using Some False by (simp add: step Cons.IH x replicate_append_same)
      next
        case neq: False
        then show ?thesis
          using False by (simp add: step Cons.IH)
      qed
    qed
  qed
qed


lemma ild_station_eq:
  "ild_station L EI ns h solver supports probeX st i =
     (foldl (ild_push_reaction (10 ^ 18 * EI) ns (station L i)
               (solve solver (buildLoadVector EI ns h (unitLoad (station L i))))) (fst st) supports,
      fst (snd st) @ [\<lparr>ild_x = station L i, ild_value = int_shear (getInternalAt EI ns h
               (solve solver (buildLoadVector EI ns h (unitLoad (station L i)))) probeX
               (unitLoad (station L i)) (ild_side (station L i) probeX))\<rparr>],
      snd (snd st) @ [\<lparr>ild_x = station L i, ild_value = int_moment (getInternalAt EI ns h
               (solve solver (buildLoadVector EI ns h (unitLoad (station L i)))) probeX
               (unitLoad (station L i)) (ild_side (station L i) probeX))\<rparr>])"
  by (simp add: ild_station_def station_def Let_def)

lemma ild_sweep:
  defines "U \<equiv> \<lambda>L EI ns h solver i. solve solver (buildLoadVector EI ns h (unitLoad (station L i)))"
  shows "fst (snd (foldl (ild_station L EI ns h solver supports probeX) (m0, [], []) [0..<n]))
           = map (\<lambda>i. \<lparr>ild_x = station L i, ild_value = int_shear (getInternalAt EI ns h
               (U L EI ns h solver i) probeX
               (unitLoad (station L i)) (ild_side (station L i) probeX))\<rparr>) [0..<n]"
    and "snd (snd (foldl (ild_station L EI ns h solver supports probeX) (m0, [], []) [0..<n]))
           = map (\<lambda>i. \<lparr>ild_x = station L i, ild_value = int_moment (getInternalAt EI ns h
               (U L EI ns h solver i) probeX
               (unitLoad (station L i)) (ild_side (station L i) probeX))\<rparr>) [0..<n]"
    and "map_option (map ild_x)
           (fst (foldl (ild_station L EI ns h solver supports probeX) (m0, [], []) [0..<n]) k)
         = map_option (\<lambda>xs. xs @ concat (map (\<lambda>i. replicate
               (length (filter (\<lambda>s. s_type s \<noteq> HINGE \<and> s_id s = k) supports)) (station L i)) [0..<n]))
             (map_option (map ild_x) (m0 k))"
proof -
  show "fst (snd (foldl (ild_station L EI ns h solver supports probeX) (m0, [], []) [0..<n]))
           = map (\<lambda>i. \<lparr>ild_x = station L i, ild_value = int_shear (getInternalAt EI ns h
               (U L EI ns h solver i) probeX
               (unitLoad (station L i)) (ild_side (station L i) probeX))\<rparr>) [0..<n]"
    by (induction n) (simp_all add: ild_station_eq U_def)
  show "snd (snd (foldl (ild_station L EI ns h solver supports probeX) (m0, [], []) [0..<n]))
           = map (\<lambda>i. \<lparr>ild_x = station L i, ild_value = int_moment (getInternalAt EI ns h
               (U L EI ns h solver i) probeX
               (unitLoad (station L i)) (ild_side (station L i) probeX))\<rparr>) [0..<n]"
    by (induction n) (simp_all add: ild_station_eq U_def)
  show "map_option (map ild_x)
           (fst (foldl (ild_station L EI ns h solver supports probeX) (m0, [], []) [0..<n]) k)
         = map_option (\<lambda>xs. xs @ concat (map (\<lambda>i. replicate
               (length (filter (\<lambda>s. s_type s \<noteq> HINGE \<and> s_id s = k) supports)) (station L i)) [0..<n]))
             (map_option (map ild_x) (m0 k))"
  proof (induction n)
    case 0
    then show ?case by (cases "m0 k") simp_all
  next
    case (Suc n)
    then show ?case
      by (cases "m0 k") (simp_all add: ild_station_eq ild_push_xs)
  qed
qed

lemma analysis_ild:
  "(ildReactions (analysis L EI supports loads probeX),
    ildShearAtProbe (analysis L EI supports loads probeX),
    ildMomentAtProbe (analysis L EI supports loads probeX))
   = (let ns = generateNodes L probeX supports loads;
          ild0 = foldl (\<lambda>m s. if s_type s \<noteq> HINGE then m(s_id s \<mapsto> []) else m) Map.empty supports
      in if 3 \<le> reactionCount supports
         then foldl (ild_station L EI ns (hingeNodes ns supports)
                 (beamSolver L EI supports loads probeX) supports probeX) (ild0, [], []) [0..<31]
         else (ild0, [], []))"
  by (simp add: analysis_def beamSolver_def Let_def)


lemma analysis_ild_fields:
  defines "sweep \<equiv> \<lambda>L EI supports loads probeX.
      foldl (ild_station L EI (generateNodes L probeX supports loads)
                 (hingeNodes (generateNodes L probeX supports loads) supports)
                 (beamSolver L EI supports loads probeX) supports probeX)
         (foldl (\<lambda>m s. if s_type s \<noteq> HINGE then m(s_id s \<mapsto> []) else m) Map.empty supports,
          [], []) [0..<31]"
  shows "3 \<le> reactionCount supports \<Longrightarrow>
           ildReactions (analysis L EI supports loads probeX) = fst (sweep L EI supports loads probeX)"
    and "3 \<le> reactionCount supports \<Longrightarrow>
           ildShearAtProbe (analysis L EI supports loads probeX)
             = fst (snd (sweep L EI supports loads probeX))"
    and "3 \<le> reactionCount supports \<Longrightarrow>
           ildMomentAtProbe (analysis L EI supports loads probeX)
             = snd (snd (sweep L EI supports loads probeX))"
    and "\<not> 3 \<le> reactionCount supports \<Longrightarrow>
           ildReactions (analysis L EI supports loads probeX)
             = foldl (\<lambda>m s. if s_type s \<noteq> HINGE then m(s_id s \<mapsto> []) else m) Map.empty supports"
    and "\<not> 3 \<le> reactionCount supports \<Longrightarrow>
           ildShearAtProbe (analysis L EI supports loads probeX) = []"
    and "\<not> 3 \<le> reactionCount supports \<Longrightarrow>
           ildMomentAtProbe (analysis L EI supports loads probeX) = []"
  by (simp_all add: analysis_def beamSolver_def Let_def sweep_def)




text \<open>The series of one support id after the sweep, in general.\<close>

lemma ild_series:
  assumes "s \<in> set supports" "s_type s \<noteq> HINGE"
  shows "\<exists>ps. fst (foldl (ild_station L EI ns h solver supports probeX)
                   (foldl (\<lambda>m s. if s_type s \<noteq> HINGE then m(s_id s \<mapsto> []) else m) Map.empty supports,
                    [], []) [0..<n]) (s_id s) = Some ps
          \<and> map ild_x ps = concat (map (\<lambda>i. replicate
               (length (filter (\<lambda>t. s_type t \<noteq> HINGE \<and> s_id t = s_id s) supports)) (station L i))
               [0..<n])"
proof -
  let ?m0 = "foldl (\<lambda>m s. if s_type s \<noteq> HINGE then m(s_id s \<mapsto> []) else m) Map.empty supports"
  have m0: "?m0 (s_id s) = Some []"
    using assms by (auto simp: ild_init)
  show ?thesis
    using ild_sweep(3) [of L EI ns h solver supports probeX ?m0 n "s_id s"]
    by (simp add: m0)
qed










section \<open>The guard\<close>

lemma analysis_complete:
  assumes "L \<noteq> 0"
  shows "complete_results supports (analysis L EI supports loads probeX)"
proof -
  let ?r = "analysis L EI supports loads probeX"
  let ?ns = "generateNodes L probeX supports loads"
  have n2: "2 \<le> length (nodes ?r)"
    using generateNodes_length [OF assms] by (simp add: analysis_nodes)
  have series: "list_all (\<lambda>s. s_type s = HINGE \<or> ildReactions ?r (s_id s) \<noteq> None) supports"
  proof (cases "3 \<le> reactionCount supports")
    case True
    have "ildReactions ?r (s_id s) \<noteq> None" if "s \<in> set supports" "s_type s \<noteq> HINGE" for s
      unfolding analysis_ild_fields(1) [OF True]
      using ild_series [OF that, of L EI ?ns "hingeNodes ?ns supports"
          "beamSolver L EI supports loads probeX" probeX 31]
      by auto
    then show ?thesis unfolding list_all_iff by blast
  next
    case False
    have "ildReactions ?r (s_id s) \<noteq> None" if "s \<in> set supports" "s_type s \<noteq> HINGE" for s
      unfolding analysis_ild_fields(4) [OF False] using that by (auto simp: ild_init)
    then show ?thesis unfolding list_all_iff by blast
  qed
  have lens: "length (ildShearAtProbe ?r) = length (ildMomentAtProbe ?r)"
  proof (cases "3 \<le> reactionCount supports")
    case True
    show ?thesis
      unfolding analysis_ild_fields(2,3) [OF True] ild_sweep(1,2) by simp
  next
    case False
    show ?thesis unfolding analysis_ild_fields(5,6) [OF False] by simp
  qed
  show ?thesis
    unfolding complete_results_def
    using n2 series lens by (simp add: length_analysis_arrays analysis_nodes)
qed

text \<open>
  C1. When \<open>config.length \<le> 0\<close> or the scaled rigidity
  \<open>EI = (elasticModulus * 1e6) * (momentOfInertia * 1e-12) \<le> 0\<close>, the call throws and returns
  nothing; otherwise it returns a complete result.
\<close>

theorem analyzeBeam_guard:
  "(cfg_length config \<le> 0 \<or> EI_of config \<le> 0
      \<longrightarrow> analyzeBeam config supports loads probeX = Inl InvalidBeamGeometry)
   \<and> (\<not> (cfg_length config \<le> 0 \<or> EI_of config \<le> 0)
      \<longrightarrow> (\<exists>r. analyzeBeam config supports loads probeX = Inr r \<and> complete_results supports r))"
proof (intro conjI impI)
  assume "cfg_length config \<le> 0 \<or> EI_of config \<le> 0"
  then show "analyzeBeam config supports loads probeX = Inl InvalidBeamGeometry"
    by (simp add: analyzeBeam_def EI_of_def Let_def)
next
  assume ok: "\<not> (cfg_length config \<le> 0 \<or> EI_of config \<le> 0)"
  then have run: "analyzeBeam config supports loads probeX
      = Inr (analysis (cfg_length config) (EI_of config) supports loads probeX)"
    by (simp add: analyzeBeam_def EI_of_def Let_def)
  have "cfg_length config \<noteq> 0" using ok by auto
  from analysis_complete [OF this] run
  show "\<exists>r. analyzeBeam config supports loads probeX = Inr r \<and> complete_results supports r"
    by blast
qed

theorem analyzeBeam_guard_witness:
  "analyzeBeam \<lparr>cfg_length = 0, cfg_elasticModulus = 200000, cfg_momentOfInertia = 500000000\<rparr>
      [support_at ''1'' PINNED 0] [] 0 = Inl InvalidBeamGeometry
   \<and> analyzeBeam \<lparr>cfg_length = 10, cfg_elasticModulus = 0, cfg_momentOfInertia = 500000000\<rparr>
      [support_at ''1'' PINNED 0] [] 0 = Inl InvalidBeamGeometry
   \<and> (\<exists>r. analyzeBeam initial_config [support_at ''1'' PINNED 0, support_at ''2'' ROLLER 10]
             [udl_load 10 0 10] 5 = Inr r
          \<and> complete_results [support_at ''1'' PINNED 0, support_at ''2'' ROLLER 10] r)"
proof -
  let ?c1 = "\<lparr>cfg_length = 0, cfg_elasticModulus = 200000, cfg_momentOfInertia = 500000000\<rparr>"
  let ?c2 = "\<lparr>cfg_length = 10, cfg_elasticModulus = 0, cfg_momentOfInertia = 500000000\<rparr>"
  have h1: "cfg_length ?c1 \<le> 0 \<or> EI_of ?c1 \<le> 0" by simp
  have h2: "cfg_length ?c2 \<le> 0 \<or> EI_of ?c2 \<le> 0" by (simp add: EI_of_def)
  have h3: "\<not> (cfg_length initial_config \<le> 0 \<or> EI_of initial_config \<le> 0)"
    by (simp add: initial_config_def EI_of_def)
  show ?thesis
    using mp [OF conjunct1 [OF analyzeBeam_guard [of ?c1 "[support_at ''1'' PINNED 0]" "[]" 0]] h1]
      mp [OF conjunct1 [OF analyzeBeam_guard [of ?c2 "[support_at ''1'' PINNED 0]" "[]" 0]] h2]
      mp [OF conjunct2 [OF analyzeBeam_guard [of initial_config
            "[support_at ''1'' PINNED 0, support_at ''2'' ROLLER 10]" "[udl_load 10 0 10]" 5]] h3]
    by (intro conjI)
qed



section \<open>The factorization\<close>


lemma squareD: "square n M \<Longrightarrow> length M = n" "square n M \<Longrightarrow> r < n \<Longrightarrow> length (M ! r) = n"
  by (auto simp: square_def list_all_length)

lemma squareI: "length M = n \<Longrightarrow> (\<And>r. r < n \<Longrightarrow> length (M ! r) = n) \<Longrightarrow> square n M"
  by (auto simp: square_def list_all_length)

lemma nth_set2:
  "j < length M \<Longrightarrow> set2 M j k v ! r ! c = (if r = j \<and> c = k \<and> k < length (M ! j) then v else M ! r ! c)"
  by (auto simp: set2_def nth_list_update list_update_beyond not_less)

lemma square_set2: "square n M \<Longrightarrow> square n (set2 M j k v)"
  by (cases "j < length M")
     (auto intro!: squareI simp: set2_def squareD nth_list_update list_update_beyond not_less)

text \<open>The inner loop of the elimination, over the columns \<open>i + 1 .. m - 1\<close> of the row \<open>j\<close>.\<close>

lemma elim_cells:
  assumes sq: "square n M" and ij: "i \<noteq> j" "j < n" and m: "m \<le> n"
  shows "square n (foldl (elim_cell i j) M [Suc i..<m])
    \<and> (\<forall>r c. foldl (elim_cell i j) M [Suc i..<m] ! r ! c
          = (if r = j \<and> i < c \<and> c < m then M ! j ! c - M ! j ! i * M ! i ! c else M ! r ! c))"
  using m
proof (induction m)
  case 0
  then show ?case using sq by simp
next
  case (Suc m)
  show ?case
  proof (cases "Suc i \<le> m")
    case False
    then show ?thesis using sq by auto
  next
    case True
    let ?M = "foldl (elim_cell i j) M [Suc i..<m]"
    have IH: "square n ?M"
      "\<And>r c. ?M ! r ! c = (if r = j \<and> i < c \<and> c < m then M ! j ! c - M ! j ! i * M ! i ! c else M ! r ! c)"
      using Suc by simp_all
    have step: "foldl (elim_cell i j) M [Suc i..<Suc m] = elim_cell i j ?M m"
      using True by simp
    have mn: "m < n" using Suc.prems by simp
    have len: "j < length ?M" "m < length (?M ! j)"
      using IH(1) ij mn by (simp_all add: squareD)
    have sq': "square n (elim_cell i j ?M m)"
      using IH(1) by (simp add: elim_cell_def square_set2)
    have "elim_cell i j ?M m ! r ! c
          = (if r = j \<and> i < c \<and> c < Suc m then M ! j ! c - M ! j ! i * M ! i ! c else M ! r ! c)"
      for r c
      using len True ij
      by (simp add: elim_cell_def nth_set2 IH(2)) (auto simp: less_Suc_eq)
    then show ?thesis using sq' by (simp only: step) blast
  qed
qed

lemma elim_row_nth:
  assumes sq: "square n M" and ij: "i < j" "j < n"
  shows "square n (elim_row n i M j)"
    and "elim_row n i M j ! r ! c
          = (if r = j \<and> c = i then M ! j ! i / M ! i ! i
             else if r = j \<and> i < c \<and> c < n then M ! j ! c - (M ! j ! i / M ! i ! i) * M ! i ! c
             else M ! r ! c)"
proof -
  let ?M1 = "set2 M j i (M ! j ! i / M ! i ! i)"
  have sq1: "square n ?M1" by (rule square_set2 [OF sq])
  have len: "j < length M" "i < length (M ! j)" using sq ij by (simp_all add: squareD)
  have M1: "?M1 ! r ! c = (if r = j \<and> c = i then M ! j ! i / M ! i ! i else M ! r ! c)" for r c
    using len by (simp add: nth_set2)
  from ij have ne: "i \<noteq> j" by simp
  note C = elim_cells [OF sq1 ne ij(2) le_refl]
  show "square n (elim_row n i M j)"
    using C by (simp add: elim_row_def Let_def)
  show "elim_row n i M j ! r ! c
          = (if r = j \<and> c = i then M ! j ! i / M ! i ! i
             else if r = j \<and> i < c \<and> c < n then M ! j ! c - (M ! j ! i / M ! i ! i) * M ! i ! c
             else M ! r ! c)"
    using C ij by (simp add: elim_row_def Let_def M1)
qed

text \<open>The loop over the rows below the pivot row.\<close>

lemma elim_rows:
  assumes sq: "square n M" and i: "i < n" and m: "m \<le> n"
  shows "square n (foldl (elim_row n i) M [Suc i..<m])
    \<and> (\<forall>r c. foldl (elim_row n i) M [Suc i..<m] ! r ! c
          = (if i < r \<and> r < m \<and> c = i then M ! r ! i / M ! i ! i
             else if i < r \<and> r < m \<and> i < c \<and> c < n
                  then M ! r ! c - (M ! r ! i / M ! i ! i) * M ! i ! c
             else M ! r ! c))"
  using m
proof (induction m)
  case 0
  then show ?case using sq by simp
next
  case (Suc m)
  show ?case
  proof (cases "Suc i \<le> m")
    case False
    then show ?thesis using sq by auto
  next
    case True
    let ?M = "foldl (elim_row n i) M [Suc i..<m]"
    have IH: "square n ?M"
      "\<And>r c. ?M ! r ! c = (if i < r \<and> r < m \<and> c = i then M ! r ! i / M ! i ! i
             else if i < r \<and> r < m \<and> i < c \<and> c < n
                  then M ! r ! c - (M ! r ! i / M ! i ! i) * M ! i ! c
             else M ! r ! c)"
      using Suc by simp_all
    have step: "foldl (elim_row n i) M [Suc i..<Suc m] = elim_row n i ?M m"
      using True by simp
    have im: "i < m" "m < n" using True Suc.prems by simp_all
    note R = elim_row_nth [OF IH(1) im]
    have "elim_row n i ?M m ! r ! c
          = (if i < r \<and> r < Suc m \<and> c = i then M ! r ! i / M ! i ! i
             else if i < r \<and> r < Suc m \<and> i < c \<and> c < n
                  then M ! r ! c - (M ! r ! i / M ! i ! i) * M ! i ! c
             else M ! r ! c)" for r c
      unfolding R(2) IH(2) using im by (auto simp: less_Suc_eq)
    then show ?thesis using R(1) by (simp only: step) blast
  qed
qed



text \<open>The search of the pivot: what \<open>max\<close> and \<open>row\<close> hold after the loop.\<close>

lemma pivot_search_inv:
  assumes "i \<le> m"
  shows "(\<forall>k. i \<le> k \<and> k < m \<longrightarrow> \<bar>M ! k ! i\<bar> \<le> fst (foldl (pivot_step M i) (0, i) [i..<m]))
    \<and> ((fst (foldl (pivot_step M i) (0, i) [i..<m]) = 0
          \<and> snd (foldl (pivot_step M i) (0, i) [i..<m]) = i)
       \<or> (0 < fst (foldl (pivot_step M i) (0, i) [i..<m])
          \<and> fst (foldl (pivot_step M i) (0, i) [i..<m])
              = \<bar>M ! snd (foldl (pivot_step M i) (0, i) [i..<m]) ! i\<bar>
          \<and> i \<le> snd (foldl (pivot_step M i) (0, i) [i..<m])
          \<and> snd (foldl (pivot_step M i) (0, i) [i..<m]) < m))"
  using assms
proof (induction m)
  case 0
  then show ?case by simp
next
  case (Suc m)
  show ?case
  proof (cases "i \<le> m")
    case False
    then have "i = Suc m" using Suc.prems by simp
    then show ?thesis by auto
  next
    case True
    define st where "st = foldl (pivot_step M i) (0, i) [i..<m]"
    have IH: "\<forall>k. i \<le> k \<and> k < m \<longrightarrow> \<bar>M ! k ! i\<bar> \<le> fst st"
      "(fst st = 0 \<and> snd st = i) \<or> (0 < fst st \<and> fst st = \<bar>M ! snd st ! i\<bar> \<and> i \<le> snd st \<and> snd st < m)"
      using Suc.IH [OF True] by (simp_all add: st_def)
    have step: "foldl (pivot_step M i) (0, i) [i..<Suc m]
        = (if \<bar>M ! m ! i\<bar> > fst st then (\<bar>M ! m ! i\<bar>, m) else st)"
      using True by (simp add: st_def pivot_step_def Let_def)
    show ?thesis
      unfolding step using IH True
      by (auto simp: less_Suc_eq)
  qed
qed

lemma pivot_search_props:
  assumes "i < n" and "pivot_search M n i = (mx, row)"
  shows "\<forall>k. i \<le> k \<and> k < n \<longrightarrow> \<bar>M ! k ! i\<bar> \<le> mx"
    and "i \<le> row" and "row < n"
    and "mx \<noteq> 0 \<Longrightarrow> mx = \<bar>M ! row ! i\<bar>"
proof -
  have le: "i \<le> n" using assms(1) by simp
  note P = pivot_search_inv [OF le, of M, folded pivot_search_def, unfolded assms(2) fst_conv snd_conv]
  show "\<forall>k. i \<le> k \<and> k < n \<longrightarrow> \<bar>M ! k ! i\<bar> \<le> mx" using P by blast
  show "i \<le> row" using P by auto
  show "row < n" using P assms(1) by auto
  show "mx = \<bar>M ! row ! i\<bar>" if "mx \<noteq> 0" using P that by auto
qed

lemma nth_swap_entries:
  "i < length xs \<Longrightarrow> row < length xs \<Longrightarrow>
   swap_entries xs i row ! r = (if r = row then xs ! i else if r = i then xs ! row else xs ! r)"
  by (auto simp: swap_entries_def nth_list_update)

lemma length_swap_entries [simp]: "length (swap_entries xs i row) = length xs"
  by (simp add: swap_entries_def)

lemma set_swap_entries:
  "i < length xs \<Longrightarrow> row < length xs \<Longrightarrow> set (swap_entries xs i row) = set xs"
  by (simp add: swap_entries_def set_swap)

lemma square_swap_entries:
  "square n M \<Longrightarrow> i < n \<Longrightarrow> row < n \<Longrightarrow> square n (swap_entries M i row)"
  by (rule squareI) (auto simp: squareD nth_swap_entries)



lemma lu_inv_swap:
  assumes sq: "square n M" and lp: "length p = n" and t: "t < n" and row: "t \<le> row" "row < n"
    and inv: "lu_inv A n t M p"
  shows "lu_inv A n t (swap_entries M t row) (swap_entries p t row)"
  unfolding lu_inv_def
proof (intro allI impI)
  fix q c assume q: "q < n" and c: "c < n"
  let ?M1 = "swap_entries M t row" and ?p1 = "swap_entries p t row"
  define q' where "q' = (if q = row then t else if q = t then row else q)"
  have len: "t < length M" "row < length M" "t < length p" "row < length p"
    using sq lp t row by (simp_all add: squareD)
  have Mq: "?M1 ! q = M ! q'" and pq: "?p1 ! q = p ! q'"
    using len by (auto simp: nth_swap_entries q'_def)
  have q'n: "q' < n" using q t row by (simp add: q'_def)
  have mn: "min t q' = min t q" using row by (auto simp: q'_def min_def)
  have low: "?M1 ! k = M ! k" if "k < min t q" for k
    using that row len by (simp add: nth_swap_entries)
  have "A ! (p ! q') ! c
          = (\<Sum>k < min t q'. if k \<le> c then M ! q' ! k * M ! k ! c else 0)
            + (if min t q' \<le> c then M ! q' ! c else 0)"
    using inv q'n c by (simp add: lu_inv_def)
  also have "(\<Sum>k < min t q'. if k \<le> c then M ! q' ! k * M ! k ! c else 0)
      = (\<Sum>k < min t q. if k \<le> c then ?M1 ! q ! k * ?M1 ! k ! c else 0)"
    unfolding mn Mq by (intro sum.cong refl) (simp add: low)
  finally show "A ! (?p1 ! q) ! c
          = (\<Sum>k < min t q. if k \<le> c then ?M1 ! q ! k * ?M1 ! k ! c else 0)
            + (if min t q \<le> c then ?M1 ! q ! c else 0)"
    by (simp add: pq Mq mn)
qed

lemma lu_inv_eliminate:
  assumes sq: "square n M1" and t: "t < n" and d: "M1 ! t ! t \<noteq> 0"
    and inv: "lu_inv A n t M1 p"
  shows "lu_inv A n (Suc t) (foldl (elim_row n t) M1 [Suc t..<n]) p"
  unfolding lu_inv_def
proof (intro allI impI)
  fix q c assume q: "q < n" and c: "c < n"
  let ?M2 = "foldl (elim_row n t) M1 [Suc t..<n]"
  note E = elim_rows [OF sq t le_refl]
  have M2: "?M2 ! r ! c' = (if t < r \<and> r < n \<and> c' = t then M1 ! r ! t / M1 ! t ! t
             else if t < r \<and> r < n \<and> t < c' \<and> c' < n
                  then M1 ! r ! c' - (M1 ! r ! t / M1 ! t ! t) * M1 ! t ! c'
             else M1 ! r ! c')" for r c'
    using E by blast
  have up: "?M2 ! k ! c' = M1 ! k ! c'" if "k \<le> t" for k c' using that by (simp add: M2)
  have left: "?M2 ! r ! k = M1 ! r ! k" if "k < t" for r k using that by (simp add: M2)
  have I: "A ! (p ! q) ! c
          = (\<Sum>k < min t q. if k \<le> c then M1 ! q ! k * M1 ! k ! c else 0)
            + (if min t q \<le> c then M1 ! q ! c else 0)"
    using inv q c by (simp add: lu_inv_def)
  show "A ! (p ! q) ! c
          = (\<Sum>k < min (Suc t) q. if k \<le> c then ?M2 ! q ! k * ?M2 ! k ! c else 0)
            + (if min (Suc t) q \<le> c then ?M2 ! q ! c else 0)"
  proof (cases "q \<le> t")
    case True
    then have mn: "min (Suc t) q = q" "min t q = q" by simp_all
    have "(\<Sum>k < q. if k \<le> c then ?M2 ! q ! k * ?M2 ! k ! c else 0)
        = (\<Sum>k < q. if k \<le> c then M1 ! q ! k * M1 ! k ! c else 0)"
      using True by (intro sum.cong refl) (simp add: up)
    then show ?thesis using I True by (simp add: mn up)
  next
    case False
    then have tq: "t < q" by simp
    then have mn: "min (Suc t) q = Suc t" "min t q = t" by simp_all
    have s: "(\<Sum>k < t. if k \<le> c then ?M2 ! q ! k * ?M2 ! k ! c else 0)
        = (\<Sum>k < t. if k \<le> c then M1 ! q ! k * M1 ! k ! c else 0)"
      by (intro sum.cong refl) (simp add: up left)
    have qt: "?M2 ! q ! t = M1 ! q ! t / M1 ! t ! t" using tq q by (simp add: M2)
    have I': "A ! (p ! q) ! c
          = (\<Sum>k < t. if k \<le> c then M1 ! q ! k * M1 ! k ! c else 0)
            + (if t \<le> c then M1 ! q ! c else 0)"
      using I by (simp add: mn)
    have sum2: "(\<Sum>k < min (Suc t) q. if k \<le> c then ?M2 ! q ! k * ?M2 ! k ! c else 0)
        = (\<Sum>k < t. if k \<le> c then M1 ! q ! k * M1 ! k ! c else 0)
          + (if t \<le> c then ?M2 ! q ! t * ?M2 ! t ! c else 0)"
      unfolding mn sum.lessThan_Suc s ..
    have tail: "(if t \<le> c then M1 ! q ! c else 0)
        = (if t \<le> c then ?M2 ! q ! t * ?M2 ! t ! c else 0)
          + (if min (Suc t) q \<le> c then ?M2 ! q ! c else 0)"
    proof -
      consider "c < t" | "c = t" | "t < c" by linarith
      then show ?thesis
      proof cases
        case 1
        then show ?thesis by (simp add: mn)
      next
        case 2
        then show ?thesis using d by (simp add: mn qt up)
      next
        case 3
        have qc: "?M2 ! q ! c = M1 ! q ! c - (M1 ! q ! t / M1 ! t ! t) * M1 ! t ! c"
          using tq q 3 c by (simp add: M2)
        show ?thesis using 3 by (simp add: mn qt up qc)
      qed
    qed
    show ?thesis unfolding sum2 I' tail by (simp only: add.assoc)
  qed
qed

lemma lu_column_step:
  assumes sq: "square n (lu_LU s)" and n: "lu_n s = n" and lp: "length (lu_pivot s) = n"
    and sp: "set (lu_pivot s) = {..<n}" and t: "t < n"
    and inv: "lu_inv A n t (lu_LU s) (lu_pivot s)"
    and ok: "\<not> fst (pivot_search (lu_LU s) n t) < 1 / 10 ^ 18"
  shows "square n (lu_LU (lu_column s t))" and "lu_n (lu_column s t) = n"
    and "length (lu_pivot (lu_column s t)) = n" and "set (lu_pivot (lu_column s t)) = {..<n}"
    and "lu_inv A n (Suc t) (lu_LU (lu_column s t)) (lu_pivot (lu_column s t))"
proof -
  obtain mx row where ps: "pivot_search (lu_LU s) n t = (mx, row)" by (cases "pivot_search (lu_LU s) n t")
  note P = pivot_search_props [OF t ps]
  have mx: "1 / 10 ^ 18 \<le> mx" using ok by (simp add: ps)
  then have mx0: "mx \<noteq> 0" by auto
  let ?M1 = "swap_entries (lu_LU s) t row" and ?p1 = "swap_entries (lu_pivot s) t row"
  have col: "lu_column s t = s\<lparr>lu_LU := foldl (elim_row n t) ?M1 [Suc t..<n], lu_pivot := ?p1\<rparr>"
    using mx by (simp add: lu_column_def n ps Let_def)
  have sq1: "square n ?M1" by (rule square_swap_entries [OF sq t P(3)])
  have len: "t < length (lu_LU s)" "row < length (lu_LU s)" using sq t P(3) by (simp_all add: squareD)
  have "?M1 ! t ! t = lu_LU s ! row ! t" using len by (simp add: nth_swap_entries)
  then have d: "?M1 ! t ! t \<noteq> 0" using P(4) [OF mx0] mx0 by auto
  have inv1: "lu_inv A n t ?M1 ?p1" by (rule lu_inv_swap [OF sq lp t P(2,3) inv])
  show "square n (lu_LU (lu_column s t))"
    using elim_rows [OF sq1 t le_refl] by (simp add: col)
  show "lu_n (lu_column s t) = n" by (simp add: col n)
  show "length (lu_pivot (lu_column s t)) = n" by (simp add: col lp)
  show "set (lu_pivot (lu_column s t)) = {..<n}"
    using t P(3) by (simp add: col set_swap_entries lp sp)
  show "lu_inv A n (Suc t) (lu_LU (lu_column s t)) (lu_pivot (lu_column s t))"
    using lu_inv_eliminate [OF sq1 t d inv1] by (simp add: col)
qed



lemma lu_state_Suc: "lu_state K (Suc t) = lu_column (lu_state K t) t"
  by (simp add: lu_state_def)

lemma LUSolver_new_state: "LUSolver_new K = lu_state K (length K)"
  by (simp add: LUSolver_new_def lu_state_def)

lemma lu_state_inv:
  assumes sq: "square n K" and ok: "pivots_ok K" and t: "t \<le> n"
  shows "square n (lu_LU (lu_state K t)) \<and> lu_n (lu_state K t) = n
    \<and> length (lu_pivot (lu_state K t)) = n \<and> set (lu_pivot (lu_state K t)) = {..<n}
    \<and> lu_inv K n t (lu_LU (lu_state K t)) (lu_pivot (lu_state K t))"
  using t
proof (induction t)
  case 0
  have n: "length K = n" using sq by (simp add: squareD)
  have "lu_inv K n 0 K [0..<n]" by (simp add: lu_inv_def)
  then show ?case using sq n by (simp add: lu_state_def lu_init_def atLeast_upt)
next
  case (Suc t)
  then have t: "t < n" and IH: "square n (lu_LU (lu_state K t))" "lu_n (lu_state K t) = n"
    "length (lu_pivot (lu_state K t)) = n" "set (lu_pivot (lu_state K t)) = {..<n}"
    "lu_inv K n t (lu_LU (lu_state K t)) (lu_pivot (lu_state K t))"
    by simp_all
  have n: "length K = n" using sq by (simp add: squareD)
  have p: "\<not> fst (pivot_search (lu_LU (lu_state K t)) n t) < 1 / 10 ^ 18"
    using ok t by (simp add: pivots_ok_def n list_all_iff)
  note S = lu_column_step [OF IH(1,2,3,4) t IH(5) p]
  show ?case unfolding lu_state_Suc using S by blast
qed

text \<open>The accumulation loops of \<open>solve\<close> are sums.\<close>

lemma foldl_add_sum:
  fixes f :: "nat \<Rightarrow> real"
  shows "foldl (\<lambda>sum j. sum + f j) a [m..<n] = a + (\<Sum>j \<in> {m..<n}. f j)"
proof (induction n)
  case 0
  then show ?case by simp
next
  case (Suc n)
  show ?case
  proof (cases "m \<le> n")
    case True
    then show ?thesis using Suc by (simp add: sum.atLeastLessThan_Suc)
  next
    case False
    then show ?thesis by simp
  qed
qed

lemma forward_subst_inv:
  assumes "m \<le> n" and "lu_n s = n"
  shows "length (foldl (forward_step s b) (replicate n 0) [0..<m]) = n
    \<and> (\<forall>i < m. foldl (forward_step s b) (replicate n 0) [0..<m] ! i
          = b ! (lu_pivot s ! i)
            - (\<Sum>j < i. lu_LU s ! i ! j * foldl (forward_step s b) (replicate n 0) [0..<m] ! j))"
  using assms(1)
proof (induction m)
  case 0
  then show ?case by simp
next
  case (Suc m)
  let ?y = "foldl (forward_step s b) (replicate n 0) [0..<m]"
  have IH: "length ?y = n"
    "\<And>i. i < m \<Longrightarrow> ?y ! i = b ! (lu_pivot s ! i) - (\<Sum>j < i. lu_LU s ! i ! j * ?y ! j)"
    using Suc by simp_all
  have mn: "m < n" using Suc.prems by simp
  let ?v = "b ! (lu_pivot s ! m) - (\<Sum>j < m. lu_LU s ! m ! j * ?y ! j)"
  have step: "foldl (forward_step s b) (replicate n 0) [0..<Suc m] = ?y[m := ?v]"
    by (simp add: forward_step_def Let_def foldl_add_sum atLeast0LessThan)
  have "?y[m := ?v] ! i = b ! (lu_pivot s ! i) - (\<Sum>j < i. lu_LU s ! i ! j * ?y[m := ?v] ! j)"
    if "i < Suc m" for i
  proof -
    have s: "(\<Sum>j < i. lu_LU s ! i ! j * ?y[m := ?v] ! j) = (\<Sum>j < i. lu_LU s ! i ! j * ?y ! j)"
      using that by (intro sum.cong refl) simp
    show ?thesis
    proof (cases "i = m")
      case True
      then show ?thesis unfolding s using IH(1) mn by simp
    next
      case False
      then have "i < m" using that by simp
      then show ?thesis unfolding s using IH(2) [of i] by simp
    qed
  qed
  then show ?case unfolding step using IH(1) by simp
qed

lemma backward_subst_inv:
  assumes "m \<le> n" and n: "lu_n s = n" and ok: "diagonal_ok s"
  shows "length (foldl (backward_step s y) (replicate n 0) (rev [m..<n])) = n
    \<and> (\<forall>i. m \<le> i \<and> i < n \<longrightarrow>
          lu_LU s ! i ! i * foldl (backward_step s y) (replicate n 0) (rev [m..<n]) ! i
            = y ! i - (\<Sum>j \<in> {Suc i..<n}. lu_LU s ! i ! j
                         * foldl (backward_step s y) (replicate n 0) (rev [m..<n]) ! j))"
  using assms(1)
proof (induction m rule: inc_induct)
  case base
  then show ?case by simp
next
  case (step m)
  let ?x = "foldl (backward_step s y) (replicate n 0) (rev [Suc m..<n])"
  have IH: "length ?x = n"
    "\<And>i. Suc m \<le> i \<Longrightarrow> i < n \<Longrightarrow>
       lu_LU s ! i ! i * ?x ! i = y ! i - (\<Sum>j \<in> {Suc i..<n}. lu_LU s ! i ! j * ?x ! j)"
    using step by simp_all
  have mn: "m < n" using step by simp
  have "m \<in> set [0..<lu_n s]" using mn n by simp
  then have d2: "\<not> \<bar>lu_LU s ! m ! m\<bar> < 1 / 10 ^ 22"
    using ok unfolding diagonal_ok_def list_all_iff by blast
  then have d: "lu_LU s ! m ! m \<noteq> 0" "\<not> \<bar>lu_LU s ! m ! m\<bar> < 1 / 10 ^ 22"
    by auto
  let ?v = "(y ! m - (\<Sum>j \<in> {Suc m..<n}. lu_LU s ! m ! j * ?x ! j)) / lu_LU s ! m ! m"
  have up: "[m..<n] = m # [Suc m..<n]" using mn by (simp add: upt_conv_Cons)
  have st: "foldl (backward_step s y) (replicate n 0) (rev [m..<n]) = ?x[m := ?v]"
    using d(2) by (simp add: up backward_step_def Let_def foldl_add_sum n)
  have "lu_LU s ! i ! i * ?x[m := ?v] ! i
          = y ! i - (\<Sum>j \<in> {Suc i..<n}. lu_LU s ! i ! j * ?x[m := ?v] ! j)"
    if "m \<le> i" "i < n" for i
  proof -
    have s: "(\<Sum>j \<in> {Suc i..<n}. lu_LU s ! i ! j * ?x[m := ?v] ! j)
        = (\<Sum>j \<in> {Suc i..<n}. lu_LU s ! i ! j * ?x ! j)"
      using that by (intro sum.cong refl) simp
    show ?thesis
    proof (cases "i = m")
      case True
      then show ?thesis unfolding s using IH(1) mn d(1) by simp
    next
      case False
      then have "Suc m \<le> i" using that by simp
      then show ?thesis unfolding s using IH(2) [of i] that False by simp
    qed
  qed
  then show ?case unfolding st using IH(1) by simp
qed


section \<open>Round trip of the solver\<close>


lemma sum_from:
  fixes f :: "nat \<Rightarrow> real"
  assumes "k < n"
  shows "(\<Sum>c < n. if k \<le> c then f c else 0) = f k + (\<Sum>c \<in> {Suc k..<n}. f c)"
proof -
  have "(\<Sum>c < n. if k \<le> c then f c else 0) = (\<Sum>c \<in> {..<n} \<inter> {c. k \<le> c}. f c)"
    by (simp add: sum.If_cases)
  also have "{..<n} \<inter> {c. k \<le> c} = {k..<n}" by auto
  also have "(\<Sum>c \<in> {k..<n}. f c) = f k + (\<Sum>c \<in> {Suc k..<n}. f c)"
    using assms by (rule sum.atLeast_Suc_lessThan)
  finally show ?thesis .
qed

text \<open>
  C5. For a square matrix \<open>K\<close> whose factorization triggers no guard and a right-hand
  side \<open>b\<close> of the same length, \<open>x = solve(b)\<close> satisfies \<open>K x = b\<close> in exact arithmetic.
\<close>

theorem solve_roundtrip:
  assumes sq: "square (length K) K" and lb: "length b = length K"
    and ok: "pivots_ok K" and dg: "diagonal_ok (LUSolver_new K)"
  shows "mat_vec K (solve (LUSolver_new K) b) = b"
proof -
  define n where "n = length K"
  define s where "s = LUSolver_new K"
  define M where "M = lu_LU s"
  define p where "p = lu_pivot s"
  define y where "y = forward_subst s b"
  define x where "x = solve s b"
  have s_state: "s = lu_state K n" by (simp add: s_def n_def LUSolver_new_state)
  have S: "lu_n s = n" "length p = n" "set p = {..<n}" "lu_inv K n n M p"
    using lu_state_inv [OF sq [folded n_def] ok le_refl] by (simp_all add: s_state M_def p_def)
  have F: "y ! i = b ! (p ! i) - (\<Sum>j < i. M ! i ! j * y ! j)" if "i < n" for i
    using forward_subst_inv [OF le_refl S(1), of b] that
    by (simp add: y_def forward_subst_def S(1) M_def p_def)
  have x_eq: "x = foldl (backward_step s y) (replicate n 0) (rev [0..<n])"
    by (simp add: x_def solve_def Let_def y_def S(1))
  note B0 = backward_subst_inv [OF le0 S(1) dg [folded s_def], of y, folded x_eq]
  have lx: "length x = n" using B0 by simp
  have B: "M ! i ! i * x ! i = y ! i - (\<Sum>j \<in> {Suc i..<n}. M ! i ! j * x ! j)" if "i < n" for i
    using B0 that by (simp add: M_def)
  have U: "(\<Sum>c < n. if k \<le> c then M ! k ! c * x ! c else 0) = y ! k" if "k < n" for k
    unfolding sum_from [OF that] using B [OF that] by simp
  have row: "(\<Sum>c < n. K ! (p ! q) ! c * x ! c) = b ! (p ! q)" if q: "q < n" for q
  proof -
    have pt: "((\<Sum>k < q. if k \<le> c then M ! q ! k * M ! k ! c else 0)
                + (if q \<le> c then M ! q ! c else 0)) * x ! c
        = (\<Sum>k < q. M ! q ! k * (if k \<le> c then M ! k ! c * x ! c else 0))
          + (if q \<le> c then M ! q ! c * x ! c else 0)" for c
    proof -
      have "(\<Sum>k < q. if k \<le> c then M ! q ! k * M ! k ! c else 0) * x ! c
          = (\<Sum>k < q. M ! q ! k * (if k \<le> c then M ! k ! c * x ! c else 0))"
        unfolding sum_distrib_right by (intro sum.cong refl) auto
      then show ?thesis by (auto simp: distrib_right)
    qed
    have "(\<Sum>c < n. K ! (p ! q) ! c * x ! c)
        = (\<Sum>c < n. ((\<Sum>k < q. if k \<le> c then M ! q ! k * M ! k ! c else 0)
                      + (if q \<le> c then M ! q ! c else 0)) * x ! c)"
      using S(4) q by (intro sum.cong refl) (simp add: lu_inv_def)
    also have "\<dots> = (\<Sum>c < n. (\<Sum>k < q. M ! q ! k * (if k \<le> c then M ! k ! c * x ! c else 0)))
                     + (\<Sum>c < n. if q \<le> c then M ! q ! c * x ! c else 0)"
      unfolding sum.distrib [symmetric] by (intro sum.cong refl pt)
    also have "(\<Sum>c < n. (\<Sum>k < q. M ! q ! k * (if k \<le> c then M ! k ! c * x ! c else 0)))
        = (\<Sum>k < q. (\<Sum>c < n. M ! q ! k * (if k \<le> c then M ! k ! c * x ! c else 0)))"
      by (rule sum.swap)
    also have "\<dots> = (\<Sum>k < q. M ! q ! k * y ! k)"
      using q by (intro sum.cong refl) (simp add: sum_distrib_left [symmetric] U)
    also have "(\<Sum>c < n. if q \<le> c then M ! q ! c * x ! c else 0) = y ! q"
      by (rule U [OF q])
    finally show ?thesis using F [OF q] by simp
  qed
  have "mat_vec K x ! r = b ! r" if r: "r < n" for r
  proof -
    have "r \<in> set p" using S(3) r by simp
    then obtain q where q: "q < n" "p ! q = r" using S(2) by (auto simp: in_set_conv_nth)
    have "mat_vec K x ! r = (\<Sum>c < n. K ! r ! c * x ! c)"
      using r by (simp add: mat_vec_def lx n_def interv_sum_list_conv_sum_set_nat atLeast_upt)
    then show ?thesis using row [OF q(1)] q(2) by simp
  qed
  moreover have "length (mat_vec K x) = length b" by (simp add: mat_vec_def lb)
  ultimately have "mat_vec K x = b"
    using lb by (intro nth_equalityI) (simp_all add: n_def)
  then show ?thesis by (simp add: x_def s_def)
qed


section \<open>The guards of the solver\<close>


lemma lu_column_skip:
  "fst (pivot_search (lu_LU s) (lu_n s) i) < 1 / 10 ^ 18 \<Longrightarrow> lu_column s i = s"
  by (simp add: lu_column_def Let_def split_def)

lemma lu_column_square:
  assumes sq: "square n (lu_LU s)" and n: "lu_n s = n" and t: "t < n"
  shows "square n (lu_LU (lu_column s t))" and "lu_n (lu_column s t) = n"
proof -
  obtain mx row where ps: "pivot_search (lu_LU s) n t = (mx, row)"
    by (cases "pivot_search (lu_LU s) n t")
  note P = pivot_search_props [OF t ps]
  have sq1: "square n (swap_entries (lu_LU s) t row)"
    by (rule square_swap_entries [OF sq t P(3)])
  show "square n (lu_LU (lu_column s t))"
    using sq elim_rows [OF sq1 t le_refl] by (simp add: lu_column_def n ps Let_def)
  show "lu_n (lu_column s t) = n" by (simp add: lu_n_lu_column n)
qed

lemma lu_state_square:
  assumes sq: "square n K" and t: "t \<le> n"
  shows "square n (lu_LU (lu_state K t)) \<and> lu_n (lu_state K t) = n"
  using t
proof (induction t)
  case 0
  then show ?case using sq by (simp add: lu_state_def lu_init_def squareD)
next
  case (Suc t)
  then have "t < n" "square n (lu_LU (lu_state K t))" "lu_n (lu_state K t) = n" by simp_all
  from lu_column_square [OF this(2,3,1)] show ?case by (simp add: lu_state_Suc)
qed

text \<open>
  When a column is eliminated, the pivot entry is the entry of largest magnitude found by
  the search, and the elimination of the rows below leaves it in place: it is the divisor
  of every division of this column.
\<close>

lemma elimination_divisor:
  assumes sq: "square n M" and t: "t < n" and ps: "pivot_search M n t = (mx, row)"
    and ok: "\<not> mx < 1 / 10 ^ 18" and j: "t < j" "j < n"
  shows "1 / 10 ^ 18 \<le> \<bar>foldl (elim_row n t) (swap_entries M t row) [Suc t..<j] ! t ! t\<bar>"
proof -
  note P = pivot_search_props [OF t ps]
  have mx0: "mx \<noteq> 0" using ok by auto
  have sq1: "square n (swap_entries M t row)" by (rule square_swap_entries [OF sq t P(3)])
  have jn: "j \<le> n" using j by simp
  have "foldl (elim_row n t) (swap_entries M t row) [Suc t..<j] ! t ! t
          = swap_entries M t row ! t ! t"
    using elim_rows [OF sq1 t jn] by simp
  also have "\<dots> = M ! row ! t"
    using sq t P(3) by (simp add: nth_swap_entries squareD)
  finally show ?thesis using P(4) [OF mx0] ok by simp
qed

lemma backward_subst_guard:
  assumes "m \<le> n" and n: "lu_n s = n"
  shows "length (foldl (backward_step s y) (replicate n 0) (rev [m..<n])) = n
    \<and> (\<forall>i. m \<le> i \<and> i < n \<longrightarrow>
          foldl (backward_step s y) (replicate n 0) (rev [m..<n]) ! i
            = (if \<bar>lu_LU s ! i ! i\<bar> < 1 / 10 ^ 22 then 0
               else (y ! i - (\<Sum>j \<in> {Suc i..<n}. lu_LU s ! i ! j
                         * foldl (backward_step s y) (replicate n 0) (rev [m..<n]) ! j))
                    / lu_LU s ! i ! i))"
  using assms(1)
proof (induction m rule: inc_induct)
  case base
  then show ?case by simp
next
  case (step m)
  let ?x = "foldl (backward_step s y) (replicate n 0) (rev [Suc m..<n])"
  let ?g = "\<lambda>x i. if \<bar>lu_LU s ! i ! i\<bar> < 1 / 10 ^ 22 then 0
               else (y ! i - (\<Sum>j \<in> {Suc i..<n}. lu_LU s ! i ! j * x ! j)) / lu_LU s ! i ! i"
  have IH: "length ?x = n" "\<And>i. Suc m \<le> i \<Longrightarrow> i < n \<Longrightarrow> ?x ! i = ?g ?x i"
    using step by simp_all
  have mn: "m < n" using step by simp
  have up: "[m..<n] = m # [Suc m..<n]" using mn by (simp add: upt_conv_Cons)
  have st: "foldl (backward_step s y) (replicate n 0) (rev [m..<n]) = ?x[m := ?g ?x m]"
    by (simp add: up backward_step_def Let_def foldl_add_sum n)
  have "?x[m := ?g ?x m] ! i = ?g (?x[m := ?g ?x m]) i" if "m \<le> i" "i < n" for i
  proof -
    have s: "(\<Sum>j \<in> {Suc i..<n}. lu_LU s ! i ! j * ?x[m := ?g ?x m] ! j)
        = (\<Sum>j \<in> {Suc i..<n}. lu_LU s ! i ! j * ?x ! j)"
      using that by (intro sum.cong refl) simp
    show ?thesis
    proof (cases "i = m")
      case True
      then show ?thesis unfolding s using IH(1) mn by simp
    next
      case False
      then have "Suc m \<le> i" using that by simp
      then show ?thesis unfolding s using IH(2) [of i] that False by simp
    qed
  qed
  then show ?case unfolding st using IH(1) by simp
qed

text \<open>
  C8. For a square matrix: a pass of the factorization whose pivot search ends below
  \<open>1e-18\<close> changes nothing; in a pass that eliminates, every division has the pivot as
  divisor, whose magnitude is \<open>1e-18\<close> at least; \<open>solve\<close> returns a vector of the length of
  the matrix, in which a component whose diagonal entry is below \<open>1e-22\<close> in magnitude is
  \<open>0\<close>, and the others are the quotients by that entry. The loops of the constructor and
  of \<open>solve\<close> are bounded, so both always complete.
\<close>

theorem solver_guards:
  assumes sq: "square (length K) K"
  shows "(\<forall>i < length K.
            (fst (pivot_search (lu_LU (lu_state K i)) (length K) i) < 1 / 10 ^ 18
               \<longrightarrow> lu_column (lu_state K i) i = lu_state K i)
          \<and> (\<not> fst (pivot_search (lu_LU (lu_state K i)) (length K) i) < 1 / 10 ^ 18
               \<longrightarrow> (\<forall>j. i < j \<and> j < length K \<longrightarrow>
                     1 / 10 ^ 18 \<le> \<bar>foldl (elim_row (length K) i)
                         (swap_entries (lu_LU (lu_state K i)) i
                            (snd (pivot_search (lu_LU (lu_state K i)) (length K) i)))
                         [Suc i..<j] ! i ! i\<bar>)))
     \<and> length (solve (LUSolver_new K) b) = length K
     \<and> (\<forall>i < length K.
            solve (LUSolver_new K) b ! i
              = (if \<bar>lu_LU (LUSolver_new K) ! i ! i\<bar> < 1 / 10 ^ 22 then 0
                 else (forward_subst (LUSolver_new K) b ! i
                        - (\<Sum>j \<in> {Suc i..<length K}. lu_LU (LUSolver_new K) ! i ! j
                              * solve (LUSolver_new K) b ! j))
                      / lu_LU (LUSolver_new K) ! i ! i))"
proof (intro conjI allI impI)
  fix i assume i: "i < length K"
  note Q = lu_state_square [OF sq less_imp_le [OF i]]
  {
    assume "fst (pivot_search (lu_LU (lu_state K i)) (length K) i) < 1 / 10 ^ 18"
    then show "lu_column (lu_state K i) i = lu_state K i"
      using Q by (intro lu_column_skip) simp
  }
  {
    fix j
    assume ok: "\<not> fst (pivot_search (lu_LU (lu_state K i)) (length K) i) < 1 / 10 ^ 18"
      and j: "i < j \<and> j < length K"
    have ps: "pivot_search (lu_LU (lu_state K i)) (length K) i
        = (fst (pivot_search (lu_LU (lu_state K i)) (length K) i),
           snd (pivot_search (lu_LU (lu_state K i)) (length K) i))"
      by simp
    show "1 / 10 ^ 18 \<le> \<bar>foldl (elim_row (length K) i)
                         (swap_entries (lu_LU (lu_state K i)) i
                            (snd (pivot_search (lu_LU (lu_state K i)) (length K) i)))
                         [Suc i..<j] ! i ! i\<bar>"
      using Q j by (intro elimination_divisor [OF _ i ps ok]) simp_all
  }
next
  show "length (solve (LUSolver_new K) b) = length K"
    by (simp add: length_solve lu_n_LUSolver_new)
next
  fix i assume i: "i < length K"
  have n: "lu_n (LUSolver_new K) = length K" by (rule lu_n_LUSolver_new)
  have x: "solve (LUSolver_new K) b
      = foldl (backward_step (LUSolver_new K) (forward_subst (LUSolver_new K) b))
          (replicate (length K) 0) (rev [0..<length K])"
    by (simp add: solve_def Let_def n)
  show "solve (LUSolver_new K) b ! i
              = (if \<bar>lu_LU (LUSolver_new K) ! i ! i\<bar> < 1 / 10 ^ 22 then 0
                 else (forward_subst (LUSolver_new K) b ! i
                        - (\<Sum>j \<in> {Suc i..<length K}. lu_LU (LUSolver_new K) ! i ! j
                              * solve (LUSolver_new K) b ! j))
                      / lu_LU (LUSolver_new K) ! i ! i)"
    unfolding x
    using backward_subst_guard [OF le0 n, of "forward_subst (LUSolver_new K) b"] i by blast
qed




section \<open>The solver on examples\<close>

lemmas lu_eval = lu_state_def lu_init_def lu_column_def pivot_search_def pivot_step_def
  swap_entries_def elim_row_def elim_cell_def set2_def LUSolver_new_def solve_def
  forward_subst_def forward_step_def backward_step_def Let_def upt_rec numeral_3_eq_3
  numeral_2_eq_2

lemma K3_new: "LUSolver_new [[0, 2, 1], [1, 1, 1], [2, 0, 5]]
   = \<lparr>lu_n = 3, lu_LU = [[2, 0, 5], [0, 2, 1], [1 / 2, 1 / 2, - 2]], lu_pivot = [2, 0, 1]\<rparr>"
  by (simp add: lu_eval)

lemma K3_solve: "solve (LUSolver_new [[0, 2, 1], [1, 1, 1], [2, 0, 5]]) [3, 3, 7] = [1, 1, 1]"
  by (simp add: K3_new) (simp add: lu_eval)

theorem solve_roundtrip_witness:
  "square 3 [[0, 2, 1], [1, 1, 1], [2, 0, 5]]
   \<and> pivots_ok [[0, 2, 1], [1, 1, 1], [2, 0, 5]]
   \<and> diagonal_ok (LUSolver_new [[0, 2, 1], [1, 1, 1], [2, 0, 5]])
   \<and> solve (LUSolver_new [[0, 2, 1], [1, 1, 1], [2, 0, 5]]) [3, 3, 7] = [1, 1, 1]
   \<and> mat_vec [[0, 2, 1], [1, 1, 1], [2, 0, 5]]
        (solve (LUSolver_new [[0, 2, 1], [1, 1, 1], [2, 0, 5]]) [3, 3, 7]) = [3, 3, 7]"
proof -
  let ?K = "[[0, 2, 1], [1, 1, 1], [2, 0, 5 :: real]]"
  have sq3: "square 3 ?K" by (simp add: square_def)
  have sq: "square (length ?K) ?K" by (simp add: square_def)
  have lb: "length [3, 3, 7 :: real] = length ?K" by simp
  have ok: "pivots_ok ?K" by (simp add: pivots_ok_def lu_eval)
  have dg: "diagonal_ok (LUSolver_new ?K)" by (simp add: K3_new diagonal_ok_def upt_rec)
  note R = solve_roundtrip [OF sq lb ok dg]
  show ?thesis by (intro conjI sq3 ok dg K3_solve R)
qed

text \<open>
  A matrix whose first column is zero: the pass of column 0 is skipped, and \<open>solve\<close> sets
  the component 0 to 0. A matrix that needs a row exchange: the divisor of the pass of
  column 0 is the exchanged pivot 1.
\<close>

theorem solver_guards_witness:
  "square 2 [[0, 1], [0, 2]]
   \<and> fst (pivot_search (lu_LU (lu_state [[0, 1], [0, 2]] 0)) 2 0) < 1 / 10 ^ 18
   \<and> lu_column (lu_state [[0, 1], [0, 2]] 0) 0 = lu_state [[0, 1], [0, 2]] 0
   \<and> solve (LUSolver_new [[0, 1], [0, 2]]) [1, 2] = [0, 1]
   \<and> length (solve (LUSolver_new [[0, 1], [0, 2]]) [1, 2]) = 2
   \<and> \<not> fst (pivot_search (lu_LU (lu_state [[0, 2], [1, 1]] 0)) 2 0) < 1 / 10 ^ 18
   \<and> 1 / 10 ^ 18 \<le> \<bar>foldl (elim_row 2 0)
         (swap_entries (lu_LU (lu_state [[0, 2], [1, 1]] 0)) 0
            (snd (pivot_search (lu_LU (lu_state [[0, 2], [1, 1]] 0)) 2 0)))
         [Suc 0..<1] ! 0 ! 0\<bar>"
proof -
  let ?K = "[[0, 1], [0, 2 :: real]]" and ?K2 = "[[0, 2], [1, 1 :: real]]"
  have len: "length ?K = 2" "length ?K2 = 2" by simp_all
  have s2: "square 2 ?K" by (simp add: square_def)
  have sq: "square (length ?K) ?K" and sq2: "square (length ?K2) ?K2"
    by (simp_all add: square_def)
  have skip: "fst (pivot_search (lu_LU (lu_state ?K 0)) (length ?K) 0) < 1 / 10 ^ 18"
    by (simp add: lu_eval)
  have noskip: "\<not> fst (pivot_search (lu_LU (lu_state ?K2 0)) (length ?K2) 0) < 1 / 10 ^ 18"
    by (simp add: lu_eval)
  have sol: "solve (LUSolver_new ?K) [1, 2] = [0, 1]" by (simp add: lu_eval)
  have i0: "0 < length ?K" "0 < length ?K2" by simp_all
  have j: "0 < (1::nat) \<and> 1 < length ?K2" by simp
  note G = solver_guards [OF sq, of "[1, 2]"]
  note G2 = solver_guards [OF sq2, of "[1, 2]"]
  have a: "lu_column (lu_state ?K 0) 0 = lu_state ?K 0"
    using conjunct1 [OF G] i0(1) skip by blast
  have b: "length (solve (LUSolver_new ?K) [1, 2]) = length ?K"
    using conjunct1 [OF conjunct2 [OF G]] .
  have c: "1 / 10 ^ 18 \<le> \<bar>foldl (elim_row (length ?K2) 0)
         (swap_entries (lu_LU (lu_state ?K2 0)) 0
            (snd (pivot_search (lu_LU (lu_state ?K2 0)) (length ?K2) 0)))
         [Suc 0..<1] ! 0 ! 0\<bar>"
    using conjunct1 [OF G2] i0(2) noskip j by blast
  show ?thesis
    by (intro conjI s2 skip [unfolded len] a sol b [unfolded len] noskip [unfolded len]
        c [unfolded len])
qed


end
